theory Spec2Isabelle
  imports Main
begin

section \<open>Global system configuration\<close>

text \<open>
  The three compile-time constants of \<^verbatim>\<open>StorageEngine.hpp\<close>. C++ \<^verbatim>\<open>int\<close> values are
  modelled by HOL integers: keys are only compared and copied, counters only move one step
  at a time, so no arithmetic of the code leaves the 32-bit range before \<open>2^31\<close> pages
  have been allocated. Frame indices, which the code obtains from container sizes, are
  natural numbers.
\<close>

definition PAGE_SIZE :: int where
  "PAGE_SIZE = 4096"

definition BUFFER_CAPACITY :: nat where
  "BUFFER_CAPACITY = 3"

definition MAX_KEYS :: int where
  "MAX_KEYS = 3"

section \<open>The node layout and the contents of a page\<close>

text \<open>
  \<^verbatim>\<open>struct BPlusNode\<close> is overlaid on the first bytes of a page buffer; the code never
  touches the other bytes of a buffer except to copy or zero the whole page. A page buffer
  (\<^verbatim>\<open>char data[PAGE_SIZE]\<close>) is therefore represented by the node value its bytes encode.
  The arrays \<^verbatim>\<open>keys[MAX_KEYS]\<close> and \<^verbatim>\<open>children[MAX_KEYS + 1]\<close> are lists.
\<close>

record BPlusNode =
  isLeaf :: bool
  numKeys :: int
  parentPage :: int
  keys :: "int list"
  children :: "int list"
  nextLeaf :: int

type_synonym page = BPlusNode

text \<open>The buffer after \<^verbatim>\<open>memset(p, 0, PAGE_SIZE)\<close>: every byte, hence every field, is zero.\<close>

definition zero_page :: page where
  "zero_page = \<lparr>isLeaf = False, numKeys = 0, parentPage = 0,
                 keys = replicate (nat MAX_KEYS) 0,
                 children = replicate (nat (MAX_KEYS + 1)) 0,
                 nextLeaf = 0\<rparr>"

text \<open>
  Reading and writing a C array element. An index outside the array is undefined
  behaviour in C++; the model makes it the value \<open>None\<close>.
\<close>

definition array_read :: "int list \<Rightarrow> int \<Rightarrow> int option" where
  "array_read a i = (if 0 \<le> i \<and> i < int (length a) then Some (a ! nat i) else None)"

definition array_write :: "int list \<Rightarrow> int \<Rightarrow> int \<Rightarrow> int list option" where
  "array_write a i v = (if 0 \<le> i \<and> i < int (length a) then Some (a[nat i := v]) else None)"

section \<open>Console output\<close>

text \<open>
  Every line the code writes to \<^verbatim>\<open>cout\<close> is an event; the lines written so far are
  threaded through the state (in the field \<open>console\<close> of the storage manager, the innermost
  state every operation passes through).
\<close>

datatype event =
    DiskWriting int
  | DiskReading int
  | BufferHit int
  | BufferMiss int
  | Allocating int
  | Evicting int
  | UserInsert int
  | KeyPlaced int int
  | NodeFull
  | SplitComplete int
  | NewRootCreated int

section \<open>Storage manager (disk layer)\<close>

text \<open>
  The database file is a sequence of pages; page \<open>p\<close> occupies the bytes from
  \<open>p * PAGE_SIZE\<close>. The stream \<^verbatim>\<open>dbFile\<close> carries its error state: an operation on a
  stream whose \<^verbatim>\<open>failbit\<close> is set does nothing, a \<^verbatim>\<open>read\<close> that meets the end of the
  file before \<^verbatim>\<open>PAGE_SIZE\<close> bytes sets \<^verbatim>\<open>failbit\<close> and leaves the destination buffer as
  it was, and the code never clears the error state. A write beyond the end of the file
  extends it; the pages in between read as zeros.
\<close>

record StorageManager =
  fileName :: string
  dbFile :: "page list"
  failbit :: bool
  console :: "event list"

definition say :: "event \<Rightarrow> StorageManager \<Rightarrow> StorageManager" where
  "say e s = s\<lparr>console := console s @ [e]\<rparr>"

text \<open>The constructor opens the file with \<^verbatim>\<open>ios::trunc\<close>: the file starts empty.\<close>

definition StorageManager_init :: "string \<Rightarrow> StorageManager" where
  "StorageManager_init name = \<lparr>fileName = name, dbFile = [], failbit = False, console = []\<rparr>"

definition put_page :: "page list \<Rightarrow> nat \<Rightarrow> page \<Rightarrow> page list" where
  "put_page f n d =
     (if n < length f then f[n := d] else f @ replicate (n - length f) zero_page @ [d])"

definition writeDisk :: "StorageManager \<Rightarrow> int \<Rightarrow> page \<Rightarrow> StorageManager" where
  "writeDisk s pid d =
     (let s1 = say (DiskWriting pid) s in
      if failbit s1 \<or> pid < 0 then s1\<lparr>failbit := True\<rparr>
      else s1\<lparr>dbFile := put_page (dbFile s1) (nat pid) d\<rparr>)"

text \<open>\<open>readDisk s pid buffer\<close> returns the new contents of the buffer and the new state.\<close>

definition readDisk :: "StorageManager \<Rightarrow> int \<Rightarrow> page \<Rightarrow> page \<times> StorageManager" where
  "readDisk s pid buffer =
     (let s1 = say (DiskReading pid) s in
      if failbit s1 \<or> pid < 0 \<or> \<not> nat pid < length (dbFile s1)
      then (buffer, s1\<lparr>failbit := True\<rparr>)
      else (dbFile s1 ! nat pid, s1))"

section \<open>Buffer manager (RAM layer)\<close>

record Frame =
  pageID :: int
  dirty :: bool
  data :: page

text \<open>
  \<open>pool\<close> is the vector of frames, \<open>pageTable\<close> the map from page identifier to frame
  index, \<open>lru\<close> the recency list (front is newest). The storage manager the code holds by
  reference is reached only through the buffer manager, so it is a field here.
\<close>

record BufferManager =
  sm :: StorageManager
  pool :: "Frame list"
  pageTable :: "int \<rightharpoonup> nat"
  lru :: "nat list"
  nextPageID :: int

definition BufferManager_init :: "StorageManager \<Rightarrow> BufferManager" where
  "BufferManager_init s =
     \<lparr>sm = s,
      pool = replicate BUFFER_CAPACITY \<lparr>pageID = - 1, dirty = False, data = zero_page\<rparr>,
      pageTable = Map.empty, lru = [], nextPageID = 0\<rparr>"

definition bm_say :: "event \<Rightarrow> BufferManager \<Rightarrow> BufferManager" where
  "bm_say e b = b\<lparr>sm := say e (sm b)\<rparr>"

text \<open>\<^verbatim>\<open>lru.remove(idx); lru.push_front(idx);\<close>\<close>

definition touch :: "nat \<Rightarrow> BufferManager \<Rightarrow> BufferManager" where
  "touch idx b = b\<lparr>lru := idx # removeAll idx (lru b)\<rparr>"

definition markDirty :: "BufferManager \<Rightarrow> int \<Rightarrow> BufferManager" where
  "markDirty b pid =
     (case pageTable b pid of
        None \<Rightarrow> b
      | Some idx \<Rightarrow> b\<lparr>pool := (pool b)[idx := (pool b ! idx)\<lparr>dirty := True\<rparr>]\<rparr>)"

text \<open>\<open>evict\<close> returns the index of the frame to use. The victim's frame keeps its old
  \<open>pageID\<close>, \<open>dirty\<close> and \<open>data\<close> until \<open>fetchPage\<close> overwrites them.\<close>

definition evict :: "BufferManager \<Rightarrow> nat \<times> BufferManager" where
  "evict b =
     (if length (lru b) < BUFFER_CAPACITY then (length (lru b), b)
      else
        let idx = last (lru b);
            b1 = bm_say (Evicting (pageID (pool b ! idx))) b;
            b2 = (if dirty (pool b1 ! idx)
                  then b1\<lparr>sm := writeDisk (sm b1) (pageID (pool b1 ! idx)) (data (pool b1 ! idx))\<rparr>
                  else b1);
            b3 = b2\<lparr>pageTable := (pageTable b2)(pageID (pool b2 ! idx) := None)\<rparr>;
            b4 = b3\<lparr>lru := butlast (lru b3)\<rparr>
        in (idx, b4))"

text \<open>\<open>fetchPage\<close> returns the pointer it hands out, as the index of the frame whose
  \<open>data\<close> it points to.\<close>

definition fetchPage :: "BufferManager \<Rightarrow> int \<Rightarrow> nat \<times> BufferManager" where
  "fetchPage b pid =
     (case pageTable b pid of
        Some idx \<Rightarrow> (idx, touch idx (bm_say (BufferHit pid) b))
      | None \<Rightarrow>
          (case evict (bm_say (BufferMiss pid) b) of
             (frameIdx, b1) \<Rightarrow>
               (case readDisk (sm b1) pid (data (pool b1 ! frameIdx)) of
                  (buf, s') \<Rightarrow>
                    let b2 = b1\<lparr>sm := s',
                                pool := (pool b1)[frameIdx :=
                                  (pool b1 ! frameIdx)\<lparr>data := buf, pageID := pid, dirty := False\<rparr>]\<rparr>;
                        b3 = b2\<lparr>pageTable := (pageTable b2)(pid \<mapsto> frameIdx)\<rparr>
                    in (frameIdx, touch frameIdx b3))))"

text \<open>Reading and writing through a pointer returned by \<open>fetchPage\<close>.\<close>

definition deref :: "BufferManager \<Rightarrow> nat \<Rightarrow> page" where
  "deref b p = data (pool b ! p)"

definition store :: "nat \<Rightarrow> (page \<Rightarrow> page) \<Rightarrow> BufferManager \<Rightarrow> BufferManager" where
  "store p f b = b\<lparr>pool := (pool b)[p := (pool b ! p)\<lparr>data := f (data (pool b ! p))\<rparr>]\<rparr>"

definition allocatePage :: "BufferManager \<Rightarrow> int \<times> BufferManager" where
  "allocatePage b =
     (let pid = nextPageID b;
          b1 = bm_say (Allocating pid) (b\<lparr>nextPageID := nextPageID b + 1\<rparr>)
      in case fetchPage b1 pid of
           (p, b2) \<Rightarrow> (pid, markDirty (store p (\<lambda>_. zero_page) b2) pid))"

section \<open>The B+ tree\<close>

record BPlusTree =
  bm :: BufferManager
  rootPage :: int

definition BPlusTree_init :: "BufferManager \<Rightarrow> BPlusTree" where
  "BPlusTree_init b =
     (case allocatePage b of
        (r, b1) \<Rightarrow>
          (case fetchPage b1 r of
             (root, b2) \<Rightarrow>
               \<lparr>bm = store root (\<lambda>n. n\<lparr>isLeaf := True, numKeys := 0, parentPage := - 1\<rparr>) b2,
                rootPage = r\<rparr>))"

text \<open>\<^verbatim>\<open>while (i < node->numKeys && key >= node->keys[i]) i++;\<close>\<close>

function findLeaf_scan :: "page \<Rightarrow> int \<Rightarrow> int \<Rightarrow> int option" where
  "findLeaf_scan n key i =
     (if i < numKeys n then
        (case array_read (keys n) i of
           None \<Rightarrow> None
         | Some k \<Rightarrow> if key \<ge> k then findLeaf_scan n key (i + 1) else Some i)
      else Some i)"
  by pat_completeness auto
termination
  by (relation "measure (\<lambda>(n, key, i). nat (numKeys n - i))") auto

declare findLeaf_scan.simps [simp del]

text \<open>
  \<open>findLeaf\<close> recurses for as long as it meets internal nodes; on page contents that
  form a cycle it does not return, which is the value \<open>None\<close>, as is undefined behaviour.
\<close>

partial_function (option) findLeaf :: "BufferManager \<Rightarrow> int \<Rightarrow> int \<Rightarrow> (int \<times> BufferManager) option" where
  "findLeaf b currPage key =
     (case fetchPage b currPage of
        (node, b1) \<Rightarrow>
          if isLeaf (deref b1 node) then Some (currPage, b1)
          else
            (case findLeaf_scan (deref b1 node) key 0 of
               None \<Rightarrow> None
             | Some i \<Rightarrow>
                 (case array_read (children (deref b1 node)) i of
                    None \<Rightarrow> None
                  | Some c \<Rightarrow> findLeaf b1 c key)))"

declare findLeaf.simps [code]

definition insertIntoParent :: "BPlusTree \<Rightarrow> int \<Rightarrow> int \<Rightarrow> int \<Rightarrow> BPlusTree option" where
  "insertIntoParent t left key right =
     (if left = rootPage t then
        (case allocatePage (bm t) of
           (newRoot, b1) \<Rightarrow>
             (case fetchPage b1 newRoot of
                (r, b2) \<Rightarrow>
                  let b3 = store r (\<lambda>n. n\<lparr>isLeaf := False\<rparr>) b2 in
                  (case array_write (keys (deref b3 r)) 0 key of
                     None \<Rightarrow> None
                   | Some ks \<Rightarrow>
                       let b4 = store r (\<lambda>n. n\<lparr>keys := ks\<rparr>) b3 in
                       (case array_write (children (deref b4 r)) 0 left of
                          None \<Rightarrow> None
                        | Some cs0 \<Rightarrow>
                            let b5 = store r (\<lambda>n. n\<lparr>children := cs0\<rparr>) b4 in
                            (case array_write (children (deref b5 r)) 1 right of
                               None \<Rightarrow> None
                             | Some cs1 \<Rightarrow>
                                 let b6 = store r (\<lambda>n. n\<lparr>children := cs1\<rparr>) b5;
                                     b7 = store r (\<lambda>n. n\<lparr>numKeys := 1\<rparr>) b6
                                 in Some \<lparr>bm = bm_say (NewRootCreated newRoot) b7,
                                          rootPage = newRoot\<rparr>)))))
      else Some t)"

text \<open>\<^verbatim>\<open>for (int i = 0; i < node->numKeys; i++) node->keys[i] = tempKeys[off + i];\<close>
  The loop reads and writes one node and the local vector only.\<close>

function splitLeaf_copy :: "page \<Rightarrow> int list \<Rightarrow> int \<Rightarrow> int \<Rightarrow> page option" where
  "splitLeaf_copy n tempKeys off i =
     (if i < numKeys n then
        (case array_read tempKeys (off + i) of
           None \<Rightarrow> None
         | Some v \<Rightarrow>
             (case array_write (keys n) i v of
                None \<Rightarrow> None
              | Some ks \<Rightarrow> splitLeaf_copy (n\<lparr>keys := ks\<rparr>) tempKeys off (i + 1)))
      else Some n)"
  by pat_completeness auto
termination
  by (relation "measure (\<lambda>(n, tempKeys, off, i). nat (numKeys n - i))") auto

declare splitLeaf_copy.simps [simp del]

definition splitLeaf :: "BPlusTree \<Rightarrow> int \<Rightarrow> int \<Rightarrow> BPlusTree option" where
  "splitLeaf t oldPageID key =
     (case allocatePage (bm_say NodeFull (bm t)) of
        (newPageID, b1) \<Rightarrow>
          (case fetchPage b1 oldPageID of
             (oldNode, b2) \<Rightarrow>
               (case fetchPage b2 newPageID of
                  (newNode, b3) \<Rightarrow>
                    let tempKeys = sort (take (nat MAX_KEYS) (keys (deref b3 oldNode)) @ [key]);
                        b4 = store newNode (\<lambda>n. n\<lparr>isLeaf := True\<rparr>) b3;
                        mid = (MAX_KEYS + 1) div 2;
                        b5 = store oldNode (\<lambda>n. n\<lparr>numKeys := mid\<rparr>) b4;
                        b6 = store newNode (\<lambda>n. n\<lparr>numKeys := (MAX_KEYS + 1) - mid\<rparr>) b5
                    in
                    (case splitLeaf_copy (deref b6 oldNode) tempKeys 0 0 of
                       None \<Rightarrow> None
                     | Some n1 \<Rightarrow>
                         let b7 = store oldNode (\<lambda>_. n1) b6 in
                         (case splitLeaf_copy (deref b7 newNode) tempKeys mid 0 of
                            None \<Rightarrow> None
                          | Some n2 \<Rightarrow>
                              let b8 = store newNode (\<lambda>_. n2) b7;
                                  b9 = markDirty b8 oldPageID;
                                  b10 = markDirty b9 newPageID;
                                  b11 = bm_say (SplitComplete newPageID) b10
                              in
                              (case array_read (keys (deref b11 newNode)) 0 of
                                 None \<Rightarrow> None
                               | Some k0 \<Rightarrow>
                                   insertIntoParent (t\<lparr>bm := b11\<rparr>) oldPageID k0 newPageID))))))"

text \<open>The shifting loop of \<open>insertIntoLeaf\<close>:
  \<^verbatim>\<open>while (i >= 0 && node->keys[i] > key) { node->keys[i + 1] = node->keys[i]; i--; }\<close>\<close>

function insertIntoLeaf_shift :: "int list \<Rightarrow> int \<Rightarrow> int \<Rightarrow> (int list \<times> int) option" where
  "insertIntoLeaf_shift ks key i =
     (if i \<ge> 0 then
        (case array_read ks i of
           None \<Rightarrow> None
         | Some k \<Rightarrow>
             if k > key then
               (case array_write ks (i + 1) k of
                  None \<Rightarrow> None
                | Some ks' \<Rightarrow> insertIntoLeaf_shift ks' key (i - 1))
             else Some (ks, i))
      else Some (ks, i))"
  by pat_completeness auto
termination
  by (relation "measure (\<lambda>(ks, key, i). nat (i + 1))") auto

declare insertIntoLeaf_shift.simps [simp del]

definition insertIntoLeaf :: "BPlusTree \<Rightarrow> int \<Rightarrow> int \<Rightarrow> BPlusTree option" where
  "insertIntoLeaf t pid key =
     (case fetchPage (bm t) pid of
        (node, b1) \<Rightarrow>
          if numKeys (deref b1 node) < MAX_KEYS then
            (case insertIntoLeaf_shift (keys (deref b1 node)) key (numKeys (deref b1 node) - 1) of
               None \<Rightarrow> None
             | Some (ks, i) \<Rightarrow>
                 (case array_write ks (i + 1) key of
                    None \<Rightarrow> None
                  | Some ks' \<Rightarrow>
                      let b2 = store node (\<lambda>n. n\<lparr>keys := ks'\<rparr>) b1;
                          b3 = store node (\<lambda>n. n\<lparr>numKeys := numKeys n + 1\<rparr>) b2;
                          b4 = markDirty b3 pid
                      in Some (t\<lparr>bm := bm_say (KeyPlaced key pid) b4\<rparr>)))
          else splitLeaf (t\<lparr>bm := b1\<rparr>) pid key)"

definition insert_key :: "BPlusTree \<Rightarrow> int \<Rightarrow> BPlusTree option" where
  "insert_key t key =
     (case findLeaf (bm_say (UserInsert key) (bm t)) (rootPage t) key of
        None \<Rightarrow> None
      | Some (leafPage, b1) \<Rightarrow> insertIntoLeaf (t\<lparr>bm := b1\<rparr>) leafPage key)"

text \<open>A sequence of \<open>insert\<close> calls, as in \<^verbatim>\<open>main\<close>.\<close>

fun inserts :: "BPlusTree \<Rightarrow> int list \<Rightarrow> BPlusTree option" where
  "inserts t [] = Some t"
| "inserts t (k # ks) = (case insert_key t k of None \<Rightarrow> None | Some t' \<Rightarrow> inserts t' ks)"

definition fresh_tree :: "string \<Rightarrow> BPlusTree" where
  "fresh_tree name = BPlusTree_init (BufferManager_init (StorageManager_init name))"

section \<open>Observing a state\<close>

text \<open>The keys a node holds are the first \<open>numKeys\<close> entries of its array.\<close>

definition leaf_keys :: "page \<Rightarrow> int list" where
  "leaf_keys n = take (nat (numKeys n)) (keys n)"

text \<open>The cached contents of a page, when the page is resident.\<close>

definition cached :: "BufferManager \<Rightarrow> int \<Rightarrow> page option" where
  "cached b pid = (case pageTable b pid of None \<Rightarrow> None | Some idx \<Rightarrow> Some (data (pool b ! idx)))"

text \<open>The evictions of a victim and the page identifiers allocated, read off the console.\<close>

fun is_eviction :: "event \<Rightarrow> bool" where
  "is_eviction (Evicting p) = True"
| "is_eviction e = False"

fun allocated :: "event list \<Rightarrow> int list" where
  "allocated [] = []"
| "allocated (Allocating p # es) = p # allocated es"
| "allocated (e # es) = allocated es"

section \<open>The buffer manager's invariant and call sequences\<close>

text \<open>
  The frames in use are the first \<open>length lru\<close> frames and the recency list holds each of
  them once; the page table maps exactly the page identifiers of the frames in use, each to
  its frame; a frame never used still has the identifier \<open>-1\<close>.
\<close>

definition bm_inv :: "BufferManager \<Rightarrow> bool" where
  "bm_inv b \<longleftrightarrow>
     length (pool b) = BUFFER_CAPACITY \<and>
     distinct (lru b) \<and>
     set (lru b) = {0..<length (lru b)} \<and>
     length (lru b) \<le> BUFFER_CAPACITY \<and>
     (\<forall>pid idx. pageTable b pid = Some idx \<longrightarrow> idx \<in> set (lru b) \<and> pageID (pool b ! idx) = pid) \<and>
     (\<forall>idx. idx \<in> set (lru b) \<longrightarrow> pageTable b (pageID (pool b ! idx)) = Some idx) \<and>
     (\<forall>idx. idx < BUFFER_CAPACITY \<and> idx \<notin> set (lru b) \<longrightarrow> pageID (pool b ! idx) = - 1)"

text \<open>The state a miss leaves, given the frame chosen and the state after \<open>evict\<close>.\<close>

definition load :: "BufferManager \<Rightarrow> int \<Rightarrow> nat \<Rightarrow> BufferManager" where
  "load b1 pid idx =
     b1\<lparr>sm := snd (readDisk (sm b1) pid (data (pool b1 ! idx))),
        pool := (pool b1)[idx := (pool b1 ! idx)\<lparr>data := fst (readDisk (sm b1) pid (data (pool b1 ! idx))),
                                              pageID := pid, dirty := False\<rparr>],
        pageTable := (pageTable b1)(pid \<mapsto> idx),
        lru := idx # removeAll idx (lru b1)\<rparr>"

datatype bm_call = FetchPage int | AllocatePage | MarkDirty int

text \<open>One call on the buffer manager, and a sequence of calls.\<close>

fun bm_step :: "BufferManager \<Rightarrow> bm_call \<Rightarrow> BufferManager" where
  "bm_step b (FetchPage pid) = snd (fetchPage b pid)"
| "bm_step b AllocatePage = snd (allocatePage b)"
| "bm_step b (MarkDirty pid) = markDirty b pid"

fun bm_run :: "BufferManager \<Rightarrow> bm_call list \<Rightarrow> BufferManager" where
  "bm_run b [] = b"
| "bm_run b (c # cs) = bm_run (bm_step b c) cs"

text \<open>The identifiers the allocations of a sequence of calls return, in order.\<close>

fun bm_ids :: "BufferManager \<Rightarrow> bm_call list \<Rightarrow> int list" where
  "bm_ids b [] = []"
| "bm_ids b (AllocatePage # cs) = fst (allocatePage b) # bm_ids (snd (allocatePage b)) cs"
| "bm_ids b (c # cs) = bm_ids (bm_step b c) cs"

section \<open>Nodes, frames and the forms of the tree\<close>

text \<open>The frame \<open>allocatePage\<close> gives the new page.\<close>

definition alloc_frame :: "BufferManager \<Rightarrow> nat" where
  "alloc_frame b =
     fst (fetchPage (bm_say (Allocating (nextPageID b)) (b\<lparr>nextPageID := nextPageID b + 1\<rparr>))
            (nextPageID b))"

text \<open>The node \<open>insertIntoParent\<close> writes into the page of the new root.\<close>

definition new_root_node :: "int \<Rightarrow> int \<Rightarrow> int \<Rightarrow> page" where
  "new_root_node left key right =
     zero_page\<lparr>keys := [key, 0, 0], children := [left, right, 0, 0], numKeys := 1\<rparr>"

text \<open>What every page buffer of a tree built by inserts satisfies: the key count is within
  bounds, the keys in use are ascending and were all inserted, and the two link fields hold
  what the constructor or \<^verbatim>\<open>memset\<close> left there.\<close>

definition node_ok :: "int set \<Rightarrow> page \<Rightarrow> bool" where
  "node_ok K n \<longleftrightarrow>
     length (keys n) = 3 \<and> 0 \<le> numKeys n \<and> numKeys n \<le> MAX_KEYS \<and>
     sorted (leaf_keys n) \<and> set (leaf_keys n) \<subseteq> K \<and>
     nextLeaf n = 0 \<and> (parentPage n = 0 \<or> parentPage n = - 1)"

text \<open>The nodes a split leaves in the old and in the new page.\<close>

definition split_old :: "page \<Rightarrow> int \<Rightarrow> page" where
  "split_old d key =
     d\<lparr>numKeys := 2,
       keys := (keys d)[0 := sort (keys d @ [key]) ! 0, 1 := sort (keys d @ [key]) ! 1]\<rparr>"

definition split_new :: "page \<Rightarrow> int \<Rightarrow> page" where
  "split_new d key =
     zero_page\<lparr>isLeaf := True, numKeys := 2,
               keys := [sort (keys d @ [key]) ! 2, sort (keys d @ [key]) ! 3, 0]\<rparr>"

text \<open>The root of a tree with one internal level: one key, the children pages 0 and 1.\<close>

definition root_ok :: "page \<Rightarrow> bool" where
  "root_ok n \<longleftrightarrow>
     \<not> isLeaf n \<and> numKeys n = 1 \<and> length (children n) = 4 \<and>
     children n ! 0 = 0 \<and> children n ! 1 = 1"

text \<open>The state of a tree that has not split yet: page 0, in frame 0, is the root and a leaf,
  and it is the only page. The stream of the storage manager has failed on its first read
  (the file was empty), so no later read or write reaches the file.\<close>

definition single_leaf :: "int set \<Rightarrow> BPlusTree \<Rightarrow> bool" where
  "single_leaf K t \<longleftrightarrow>
     bm_inv (bm t) \<and> failbit (sm (bm t)) \<and> rootPage t = 0 \<and> nextPageID (bm t) = 1 \<and>
     lru (bm t) = [0] \<and> pageID (pool (bm t) ! 0) = 0 \<and> isLeaf (data (pool (bm t) ! 0)) \<and>
     (\<forall>g. g < BUFFER_CAPACITY \<longrightarrow> node_ok K (data (pool (bm t) ! g)))"

text \<open>The state of a tree after its first split: the root is page 2, resident in frame 2,
  and frames 0 and 1 hold leaves.\<close>

definition two_level :: "int set \<Rightarrow> BPlusTree \<Rightarrow> bool" where
  "two_level K t \<longleftrightarrow>
     bm_inv (bm t) \<and> failbit (sm (bm t)) \<and> rootPage t = 2 \<and> pageTable (bm t) 2 = Some 2 \<and>
     length (lru (bm t)) = 3 \<and> root_ok (data (pool (bm t) ! 2)) \<and>
     isLeaf (data (pool (bm t) ! 0)) \<and> isLeaf (data (pool (bm t) ! 1)) \<and>
     (\<forall>g. g < BUFFER_CAPACITY \<longrightarrow> node_ok K (data (pool (bm t) ! g))) \<and>
     (\<forall>p i. pageTable (bm t) p = Some i \<longrightarrow> p < nextPageID (bm t))"

definition tree_inv :: "int set \<Rightarrow> BPlusTree \<Rightarrow> bool" where
  "tree_inv K t \<longleftrightarrow> single_leaf K t \<or> two_level K t"

text \<open>No frame holds the same key twice.\<close>

definition nodup :: "BPlusTree \<Rightarrow> bool" where
  "nodup t \<longleftrightarrow> (\<forall>g. g < BUFFER_CAPACITY \<longrightarrow> distinct (leaf_keys (data (pool (bm t) ! g))))"

text \<open>What one operation does to \<open>parentPage\<close> and \<open>nextLeaf\<close>, frame by frame, from the state
  \<open>b\<close> to the state \<open>b'\<close>: a frame that holds a page allocated in between has both fields 0,
  and any other frame has the two fields it had.\<close>

definition links_kept :: "BufferManager \<Rightarrow> BufferManager \<Rightarrow> bool" where
  "links_kept b b' \<longleftrightarrow>
     (\<forall>g. g < BUFFER_CAPACITY \<longrightarrow>
        (nextPageID b \<le> pageID (pool b' ! g) \<longrightarrow>
           parentPage (data (pool b' ! g)) = 0 \<and> nextLeaf (data (pool b' ! g)) = 0) \<and>
        (pageID (pool b' ! g) < nextPageID b \<longrightarrow>
           parentPage (data (pool b' ! g)) = parentPage (data (pool b ! g)) \<and>
           nextLeaf (data (pool b' ! g)) = nextLeaf (data (pool b ! g))))"

text \<open>An insert of \<open>key\<close> that takes \<open>t\<close> to \<open>t'\<close> by splitting a leaf \<open>l\<close> other than the root:
  \<open>findLeaf\<close> chose \<open>l\<close>, the insert ended in \<open>insertIntoParent l pk new\<close> on the state \<open>t'\<close>, where
  \<open>new\<close> is the page the split allocated, resident, a leaf whose first key is \<open>pk\<close>, and the
  frame of the root holds the node it held.\<close>

definition split_below_root :: "BPlusTree \<Rightarrow> int \<Rightarrow> BPlusTree \<Rightarrow> bool" where
  "split_below_root t key t' \<longleftrightarrow>
     (\<exists>l pk b2 z.
        findLeaf (bm_say (UserInsert key) (bm t)) (rootPage t) key = Some (l, b2) \<and>
        l \<noteq> rootPage t' \<and>
        insert_key t key = insertIntoParent t' l pk (nextPageID (bm t)) \<and>
        nextPageID (bm t') = nextPageID (bm t) + 1 \<and>
        pageTable (bm t') (nextPageID (bm t)) = Some z \<and>
        isLeaf (data (pool (bm t') ! z)) \<and>
        hd (leaf_keys (data (pool (bm t') ! z))) = pk \<and>
        data (pool (bm t') ! 2) = data (pool (bm t) ! 2))"

text \<open>The node a caller sees when it fetches page \<open>p\<close>.\<close>

definition node_at :: "BufferManager \<Rightarrow> int \<Rightarrow> page" where
  "node_at b p = (case fetchPage b p of (f, b1) \<Rightarrow> deref b1 f)"

text \<open>The two shapes of a tree, as seen through \<open>fetchPage\<close> from the root: the root is a
  leaf; or the root is internal, has one key and two different children, and both children
  are leaves.\<close>

definition single_leaf_shape :: "BPlusTree \<Rightarrow> bool" where
  "single_leaf_shape t \<longleftrightarrow> isLeaf (node_at (bm t) (rootPage t))"

definition two_level_shape :: "BPlusTree \<Rightarrow> bool" where
  "two_level_shape t \<longleftrightarrow>
     (case fetchPage (bm t) (rootPage t) of
        (f, b1) \<Rightarrow>
          let r = deref b1 f in
          \<not> isLeaf r \<and> numKeys r = 1 \<and> children r ! 0 \<noteq> children r ! 1 \<and>
          isLeaf (node_at b1 (children r ! 0)) \<and> isLeaf (node_at b1 (children r ! 1)))"

section \<open>Lemmas on the buffer manager\<close>

lemma bm_invD:
  assumes "bm_inv b"
  shows "length (pool b) = BUFFER_CAPACITY"
    and "distinct (lru b)"
    and "set (lru b) = {0..<length (lru b)}"
    and "length (lru b) \<le> BUFFER_CAPACITY"
    and "\<And>p i. pageTable b p = Some i \<Longrightarrow> i \<in> set (lru b)"
    and "\<And>p i. pageTable b p = Some i \<Longrightarrow> pageID (pool b ! i) = p"
    and "\<And>i. i \<in> set (lru b) \<Longrightarrow> pageTable b (pageID (pool b ! i)) = Some i"
    and "\<And>i. i < BUFFER_CAPACITY \<Longrightarrow> i \<notin> set (lru b) \<Longrightarrow> pageID (pool b ! i) = - 1"
  using assms unfolding bm_inv_def by blast+

lemma bm_invI:
  assumes "length (pool b) = BUFFER_CAPACITY"
    and "distinct (lru b)"
    and "set (lru b) = {0..<length (lru b)}"
    and "length (lru b) \<le> BUFFER_CAPACITY"
    and "\<And>p i. pageTable b p = Some i \<Longrightarrow> i \<in> set (lru b) \<and> pageID (pool b ! i) = p"
    and "\<And>i. i \<in> set (lru b) \<Longrightarrow> pageTable b (pageID (pool b ! i)) = Some i"
    and "\<And>i. i < BUFFER_CAPACITY \<Longrightarrow> i \<notin> set (lru b) \<Longrightarrow> pageID (pool b ! i) = - 1"
  shows "bm_inv b"
  using assms unfolding bm_inv_def by blast

lemma bm_inv_frame_lt:
  "bm_inv b \<Longrightarrow> i \<in> set (lru b) \<Longrightarrow> i < BUFFER_CAPACITY"
proof -
  assume a: "bm_inv b" "i \<in> set (lru b)"
  then have "i < length (lru b)" using bm_invD(3)[OF a(1)] by simp
  then show ?thesis using bm_invD(4)[OF a(1)] by simp
qed

lemma bm_inv_init: "bm_inv (BufferManager_init s)"
  by (rule bm_invI) (simp_all add: BufferManager_init_def)

lemma bm_say_simps [simp]:
  "lru (bm_say e b) = lru b" "pool (bm_say e b) = pool b" "pageTable (bm_say e b) = pageTable b"
  "nextPageID (bm_say e b) = nextPageID b" "sm (bm_say e b) = say e (sm b)"
  by (simp_all add: bm_say_def)

lemma touch_simps [simp]:
  "lru (touch i b) = i # removeAll i (lru b)" "pool (touch i b) = pool b"
  "pageTable (touch i b) = pageTable b"
  "nextPageID (touch i b) = nextPageID b" "sm (touch i b) = sm b"
  by (simp_all add: touch_def)

lemma bm_inv_say [simp]: "bm_inv (bm_say e b) = bm_inv b"
  by (simp add: bm_inv_def)

lemma bm_inv_sm [simp]: "bm_inv (b\<lparr>sm := s\<rparr>) = bm_inv b"
  by (simp add: bm_inv_def)

lemma fetchPage_hit:
  "pageTable b pid = Some idx \<Longrightarrow> fetchPage b pid = (idx, touch idx (bm_say (BufferHit pid) b))"
  by (simp add: fetchPage_def)

lemma distinct_length_removeAll:
  "distinct xs \<Longrightarrow> x \<in> set xs \<Longrightarrow> Suc (length (removeAll x xs)) = length xs"
  by (induction xs) auto

lemma bm_inv_touch:
  assumes "bm_inv b" "idx \<in> set (lru b)"
  shows "bm_inv (touch idx b)"
proof (rule bm_invI)
  note D = bm_invD[OF assms(1)]
  have len: "Suc (length (removeAll idx (lru b))) = length (lru b)"
    using D(2) assms(2) by (rule distinct_length_removeAll)
  have st: "insert idx (set (lru b) - {idx}) = set (lru b)" using assms by auto
  show "length (pool (touch idx b)) = BUFFER_CAPACITY" using D(1) by simp
  show "distinct (lru (touch idx b))" using D(2) by (simp add: distinct_removeAll)
  show "set (lru (touch idx b)) = {0..<length (lru (touch idx b))}"
    using D(3) st len by simp
  show "length (lru (touch idx b)) \<le> BUFFER_CAPACITY" using D(4) len by simp
  show "pageTable (touch idx b) p = Some i \<Longrightarrow>
          i \<in> set (lru (touch idx b)) \<and> pageID (pool (touch idx b) ! i) = p" for p i
    using D(5,6)[of p i] by auto
  show "i \<in> set (lru (touch idx b)) \<Longrightarrow>
          pageTable (touch idx b) (pageID (pool (touch idx b) ! i)) = Some i" for i
    using D(7)[of i] assms(2) by auto
  show "i < BUFFER_CAPACITY \<Longrightarrow> i \<notin> set (lru (touch idx b)) \<Longrightarrow>
          pageID (pool (touch idx b) ! i) = - 1" for i
    using D(8)[of i] by auto
qed

lemma removeAll_last_distinct:
  "distinct xs \<Longrightarrow> xs \<noteq> [] \<Longrightarrow> removeAll (last xs) xs = butlast xs"
  by (induction xs) (auto simp: distinct_removeAll)

lemma last_notin_butlast:
  "distinct xs \<Longrightarrow> xs \<noteq> [] \<Longrightarrow> last xs \<notin> set (butlast xs)"
  by (induction xs) auto

lemma set_butlast_last:
  "xs \<noteq> [] \<Longrightarrow> set xs = insert (last xs) (set (butlast xs))"
  by (induction xs rule: rev_induct) auto

lemma fetchPage_miss:
  "pageTable b pid = None \<Longrightarrow>
   fetchPage b pid = (fst (evict (bm_say (BufferMiss pid) b)),
                      load (snd (evict (bm_say (BufferMiss pid) b))) pid (fst (evict (bm_say (BufferMiss pid) b))))"
  by (simp add: fetchPage_def load_def touch_def Let_def split: prod.splits)

lemma evict_free:
  "length (lru b) < BUFFER_CAPACITY \<Longrightarrow> evict b = (length (lru b), b)"
  by (simp add: evict_def)

lemma evict_full:
  "\<not> length (lru b) < BUFFER_CAPACITY \<Longrightarrow>
   evict b = (last (lru b),
      b\<lparr>sm := (if dirty (pool b ! last (lru b))
                then writeDisk (say (Evicting (pageID (pool b ! last (lru b)))) (sm b))
                       (pageID (pool b ! last (lru b))) (data (pool b ! last (lru b)))
                else say (Evicting (pageID (pool b ! last (lru b)))) (sm b)),
        pageTable := (pageTable b)(pageID (pool b ! last (lru b)) := None),
        lru := butlast (lru b)\<rparr>)"
  by (simp add: evict_def Let_def bm_say_def)

lemma bm_inv_load_free:
  assumes "bm_inv b" "pageTable b pid = None" "length (lru b) < BUFFER_CAPACITY"
  shows "bm_inv (load b pid (length (lru b)))"
proof (rule bm_invI)
  note D = bm_invD[OF assms(1)]
  let ?n = "length (lru b)" and ?b = "load b pid (length (lru b))"
  have nin: "?n \<notin> set (lru b)" using D(3) by simp
  have nopid: "pageID (pool b ! i) \<noteq> pid" if "i \<in> set (lru b)" for i
    using D(7)[OF that] assms(2) by auto
  have lru': "lru ?b = ?n # lru b" using nin by (simp add: load_def)
  have pool': "pool ?b ! i = (if i = ?n then (pool b ! i)\<lparr>data := fst (readDisk (sm b) pid (data (pool b ! i))),
                                              pageID := pid, dirty := False\<rparr> else pool b ! i)"
    if "i < BUFFER_CAPACITY" for i
    using that D(1) by (simp add: load_def nth_list_update)
  have pt': "pageTable ?b = (pageTable b)(pid \<mapsto> ?n)" by (simp add: load_def)
  show "length (pool ?b) = BUFFER_CAPACITY" using D(1) by (simp add: load_def)
  show "distinct (lru ?b)" using D(2) nin lru' by simp
  show "set (lru ?b) = {0..<length (lru ?b)}" using D(3) lru' by (auto simp: less_Suc_eq)
  show "length (lru ?b) \<le> BUFFER_CAPACITY" using assms(3) lru' by simp
  show "pageTable ?b p = Some i \<Longrightarrow> i \<in> set (lru ?b) \<and> pageID (pool ?b ! i) = p" for p i
  proof -
    assume a: "pageTable ?b p = Some i"
    show ?thesis
    proof (cases "p = pid")
      case True
      then have "i = ?n" using a pt' by simp
      then show ?thesis using True lru' pool'[of ?n] assms(3) by simp
    next
      case False
      then have "pageTable b p = Some i" using a pt' by simp
      then have "i \<in> set (lru b)" "pageID (pool b ! i) = p" using D(5,6) by blast+
      moreover from this have "i \<noteq> ?n" "i < BUFFER_CAPACITY" using nin bm_inv_frame_lt[OF assms(1)] by auto
      ultimately show ?thesis using lru' pool'[of i] by simp
    qed
  qed
  show "i \<in> set (lru ?b) \<Longrightarrow> pageTable ?b (pageID (pool ?b ! i)) = Some i" for i
  proof -
    assume a: "i \<in> set (lru ?b)"
    show ?thesis
    proof (cases "i = ?n")
      case True
      then show ?thesis using pool'[of ?n] assms(3) pt' by simp
    next
      case False
      then have i: "i \<in> set (lru b)" using a lru' by simp
      then have "i < BUFFER_CAPACITY" using bm_inv_frame_lt[OF assms(1)] by auto
      then show ?thesis using False pool'[of i] pt' D(7)[OF i] nopid[OF i] by simp
    qed
  qed
  show "i < BUFFER_CAPACITY \<Longrightarrow> i \<notin> set (lru ?b) \<Longrightarrow> pageID (pool ?b ! i) = - 1" for i
    using D(8)[of i] lru' pool'[of i] by auto
qed

lemma bm_inv_load_full:
  assumes "bm_inv b" "pageTable b pid = None" "\<not> length (lru b) < BUFFER_CAPACITY"
  shows "bm_inv (load (snd (evict b)) pid (last (lru b)))"
proof (rule bm_invI)
  note D = bm_invD[OF assms(1)]
  let ?l = "last (lru b)"
  let ?v = "pageID (pool b ! ?l)"
  let ?b = "load (snd (evict b)) pid ?l"
  have ne: "lru b \<noteq> []" using assms(3) by (auto simp: BUFFER_CAPACITY_def)
  have l: "?l \<in> set (lru b)" using ne by simp
  have lcap: "?l < BUFFER_CAPACITY" using bm_inv_frame_lt[OF assms(1) l] .
  have nopid: "pageID (pool b ! i) \<noteq> pid" if "i \<in> set (lru b)" for i
    using D(7)[OF that] assms(2) by auto
  have other: "pageID (pool b ! i) \<noteq> ?v" if "i \<in> set (lru b)" "i \<noteq> ?l" for i
    using D(7)[OF that(1)] D(7)[OF l] that(2) by auto
  have lru': "lru ?b = ?l # butlast (lru b)"
    using last_notin_butlast[OF D(2) ne] by (simp add: load_def evict_full[OF assms(3)])
  have set': "set (lru ?b) = set (lru b)" using lru' set_butlast_last[OF ne] by simp
  have len': "length (lru ?b) = length (lru b)" using lru' ne by simp
  have pool': "pageID (pool ?b ! i) = (if i = ?l then pid else pageID (pool b ! i))"
    if "i < BUFFER_CAPACITY" for i
    using that D(1) by (simp add: load_def evict_full[OF assms(3)] nth_list_update)
  have pt': "pageTable ?b = ((pageTable b)(?v := None))(pid \<mapsto> ?l)"
    by (simp add: load_def evict_full[OF assms(3)])
  show "length (pool ?b) = BUFFER_CAPACITY" using D(1) by (simp add: load_def evict_full[OF assms(3)])
  show "distinct (lru ?b)" using D(2) lru' last_notin_butlast[OF D(2) ne] by (simp add: distinct_butlast)
  show "set (lru ?b) = {0..<length (lru ?b)}" using D(3) set' len' by simp
  show "length (lru ?b) \<le> BUFFER_CAPACITY" using D(4) len' by simp
  show "pageTable ?b p = Some i \<Longrightarrow> i \<in> set (lru ?b) \<and> pageID (pool ?b ! i) = p" for p i
  proof -
    assume a: "pageTable ?b p = Some i"
    show ?thesis
    proof (cases "p = pid")
      case True
      then have "i = ?l" using a pt' by simp
      then show ?thesis using True set' l pool'[OF lcap] by simp
    next
      case False
      then have pv: "p \<noteq> ?v" and pt: "pageTable b p = Some i" using a pt' by (auto split: if_splits)
      then have i: "i \<in> set (lru b)" "pageID (pool b ! i) = p" using D(5,6) by blast+
      then have "i \<noteq> ?l" using pv by auto
      then show ?thesis using i set' pool'[OF bm_inv_frame_lt[OF assms(1) i(1)]] by simp
    qed
  qed
  show "i \<in> set (lru ?b) \<Longrightarrow> pageTable ?b (pageID (pool ?b ! i)) = Some i" for i
  proof -
    assume "i \<in> set (lru ?b)"
    then have i: "i \<in> set (lru b)" using set' by simp
    show ?thesis
    proof (cases "i = ?l")
      case True
      then show ?thesis using pool'[OF lcap] pt' by simp
    next
      case False
      then show ?thesis
        using pool'[OF bm_inv_frame_lt[OF assms(1) i]] pt' D(7)[OF i] nopid[OF i] other[OF i False]
        by simp
    qed
  qed
  show "i < BUFFER_CAPACITY \<Longrightarrow> i \<notin> set (lru ?b) \<Longrightarrow> pageID (pool ?b ! i) = - 1" for i
    using D(8)[of i] set' l pool'[of i] by auto
qed

lemma evict_say_fst [simp]: "fst (evict (bm_say e b)) = fst (evict b)"
  by (simp add: evict_def Let_def)

lemma fetchPage_inv:
  assumes "bm_inv b"
  shows "bm_inv (snd (fetchPage b pid))"
proof (cases "pageTable b pid")
  case (Some i)
  then have "i \<in> set (lru b)" using bm_invD(5)[OF assms] by simp
  then show ?thesis using Some assms by (simp add: fetchPage_hit bm_inv_touch)
next
  case None
  let ?b = "bm_say (BufferMiss pid) b"
  have inv: "bm_inv ?b" and none: "pageTable ?b pid = None" using assms None by simp_all
  show ?thesis
  proof (cases "length (lru b) < BUFFER_CAPACITY")
    case True
    then show ?thesis
      using bm_inv_load_free[OF inv none] by (simp add: fetchPage_miss[OF None] evict_free)
  next
    case False
    then have "fst (evict ?b) = last (lru b)" by (simp add: evict_full)
    then show ?thesis
      using bm_inv_load_full[OF inv none] False by (simp add: fetchPage_miss[OF None])
  qed
qed

lemma fetchPage_nextPageID [simp]: "nextPageID (snd (fetchPage b pid)) = nextPageID b"
  by (simp add: fetchPage_def evict_def load_def Let_def split: option.splits prod.splits)

lemma fetchPage_length_pool [simp]: "length (pool (snd (fetchPage b pid))) = length (pool b)"
  by (simp add: fetchPage_def evict_def load_def Let_def split: option.splits prod.splits)

lemma fetchPage_table:
  "pageTable (snd (fetchPage b pid)) pid = Some (fst (fetchPage b pid))"
  by (simp add: fetchPage_def evict_def load_def Let_def split: option.splits prod.splits)

lemma fetchPage_lt:
  assumes "bm_inv b"
  shows "fst (fetchPage b pid) < BUFFER_CAPACITY"
proof -
  have "fst (fetchPage b pid) \<in> set (lru (snd (fetchPage b pid)))"
    using bm_invD(5)[OF fetchPage_inv[OF assms] fetchPage_table] .
  then show ?thesis using bm_inv_frame_lt[OF fetchPage_inv[OF assms]] by blast
qed

lemma fetchPage_lru:
  assumes "bm_inv b"
  shows "lru (snd (fetchPage b pid)) = fst (fetchPage b pid) # removeAll (fst (fetchPage b pid)) (lru b)"
proof (cases "pageTable b pid")
  case (Some i)
  then show ?thesis by (simp add: fetchPage_hit)
next
  case None
  show ?thesis
  proof (cases "length (lru b) < BUFFER_CAPACITY")
    case True
    then show ?thesis by (simp add: fetchPage_miss[OF None] evict_free load_def)
  next
    case False
    then have ne: "lru b \<noteq> []" by (auto simp: BUFFER_CAPACITY_def)
    show ?thesis
      using False removeAll_last_distinct[OF bm_invD(2)[OF assms] ne]
        last_notin_butlast[OF bm_invD(2)[OF assms] ne]
      by (simp add: fetchPage_miss[OF None] evict_full load_def)
  qed
qed

lemma store_simps [simp]:
  "lru (store p f b) = lru b" "pageTable (store p f b) = pageTable b"
  "nextPageID (store p f b) = nextPageID b" "sm (store p f b) = sm b"
  "length (pool (store p f b)) = length (pool b)"
  by (simp_all add: store_def)

lemma store_pageID [simp]: "pageID (pool (store p f b) ! i) = pageID (pool b ! i)"
  by (cases "p < length (pool b)") (simp_all add: store_def nth_list_update list_update_beyond)

lemma store_dirty [simp]: "dirty (pool (store p f b) ! i) = dirty (pool b ! i)"
  by (cases "p < length (pool b)") (simp_all add: store_def nth_list_update list_update_beyond)

lemma store_data:
  "p < length (pool b) \<Longrightarrow>
   data (pool (store p f b) ! i) = (if i = p then f (data (pool b ! p)) else data (pool b ! i))"
  by (simp add: store_def nth_list_update)

lemma bm_inv_store [simp]: "bm_inv (store p f b) = bm_inv b"
  by (simp add: bm_inv_def)

lemma markDirty_simps [simp]:
  "lru (markDirty b pid) = lru b" "pageTable (markDirty b pid) = pageTable b"
  "nextPageID (markDirty b pid) = nextPageID b" "sm (markDirty b pid) = sm b"
  "length (pool (markDirty b pid)) = length (pool b)"
  by (simp_all add: markDirty_def split: option.splits)

lemma markDirty_pageID [simp]: "pageID (pool (markDirty b pid) ! i) = pageID (pool b ! i)"
proof (cases "pageTable b pid")
  case None
  then show ?thesis by (simp add: markDirty_def)
next
  case (Some idx)
  then show ?thesis
    by (cases "idx < length (pool b)") (simp_all add: markDirty_def nth_list_update list_update_beyond)
qed

lemma markDirty_data [simp]: "data (pool (markDirty b pid) ! i) = data (pool b ! i)"
proof (cases "pageTable b pid")
  case None
  then show ?thesis by (simp add: markDirty_def)
next
  case (Some idx)
  then show ?thesis
    by (cases "idx < length (pool b)") (simp_all add: markDirty_def nth_list_update list_update_beyond)
qed

lemma markDirty_dirty:
  "pageTable b pid = Some idx \<Longrightarrow> idx < length (pool b) \<Longrightarrow>
   dirty (pool (markDirty b pid) ! i) = (i = idx \<or> dirty (pool b ! i))"
  by (auto simp: markDirty_def nth_list_update)

lemma bm_inv_markDirty [simp]: "bm_inv (markDirty b pid) = bm_inv b"
  by (simp add: bm_inv_def)

lemma bm_inv_nextPageID [simp]: "bm_inv (b\<lparr>nextPageID := n\<rparr>) = bm_inv b"
  by (simp add: bm_inv_def)

lemma allocatePage_fst [simp]: "fst (allocatePage b) = nextPageID b"
  by (simp add: allocatePage_def Let_def case_prod_beta)

lemma allocatePage_nextPageID [simp]: "nextPageID (snd (allocatePage b)) = nextPageID b + 1"
  by (simp add: allocatePage_def Let_def case_prod_beta)

lemma allocatePage_inv:
  assumes "bm_inv b"
  shows "bm_inv (snd (allocatePage b))"
  using fetchPage_inv[of "bm_say (Allocating (nextPageID b)) (b\<lparr>nextPageID := nextPageID b + 1\<rparr>)" "nextPageID b"] assms
  by (simp add: allocatePage_def Let_def case_prod_beta)

lemma bm_step_inv: "bm_inv b \<Longrightarrow> bm_inv (bm_step b c)"
  by (cases c) (simp_all add: fetchPage_inv allocatePage_inv)

lemma bm_run_inv: "bm_inv b \<Longrightarrow> bm_inv (bm_run b cs)"
  by (induction cs arbitrary: b) (simp_all add: bm_step_inv)

lemma bm_inv_coherent:
  assumes "bm_inv b"
  shows "dom (pageTable b) = (\<lambda>idx. pageID (pool b ! idx)) ` set (lru b)"
    and "inj_on (\<lambda>idx. pageID (pool b ! idx)) (set (lru b))"
    and "card (dom (pageTable b)) = length (lru b)"
    and "bij_betw (\<lambda>pid. the (pageTable b pid)) (dom (pageTable b)) (set (lru b))"
proof -
  note D = bm_invD[OF assms]
  show dom: "dom (pageTable b) = (\<lambda>idx. pageID (pool b ! idx)) ` set (lru b)"
  proof (intro set_eqI iffI)
    fix p assume "p \<in> dom (pageTable b)"
    then obtain i where "pageTable b p = Some i" by auto
    then show "p \<in> (\<lambda>idx. pageID (pool b ! idx)) ` set (lru b)" using D(5,6) by force
  next
    fix p assume "p \<in> (\<lambda>idx. pageID (pool b ! idx)) ` set (lru b)"
    then obtain i where "i \<in> set (lru b)" "p = pageID (pool b ! i)" by blast
    then show "p \<in> dom (pageTable b)" using D(7)[of i] by blast
  qed
  show inj: "inj_on (\<lambda>idx. pageID (pool b ! idx)) (set (lru b))"
  proof (rule inj_onI)
    fix i j assume a: "i \<in> set (lru b)" "j \<in> set (lru b)" "pageID (pool b ! i) = pageID (pool b ! j)"
    have "pageTable b (pageID (pool b ! j)) = Some i" using D(7)[OF a(1)] unfolding a(3) .
    then show "i = j" using D(7)[OF a(2)] by (metis option.inject)
  qed
  show "card (dom (pageTable b)) = length (lru b)"
    using dom card_image[OF inj] distinct_card[OF D(2)] by simp
  show "bij_betw (\<lambda>pid. the (pageTable b pid)) (dom (pageTable b)) (set (lru b))"
  proof (rule bij_betw_byWitness[where f' = "\<lambda>idx. pageID (pool b ! idx)"])
    show "\<forall>x\<in>dom (pageTable b). pageID (pool b ! the (pageTable b x)) = x"
    proof
      fix x assume "x \<in> dom (pageTable b)"
      then obtain i where i: "pageTable b x = Some i" by blast
      from D(6)[OF i] show "pageID (pool b ! the (pageTable b x)) = x" by (simp add: i)
    qed
    show "\<forall>y\<in>set (lru b). the (pageTable b (pageID (pool b ! y))) = y"
      by (simp add: D(7))
    show "(\<lambda>pid. the (pageTable b pid)) ` dom (pageTable b) \<subseteq> set (lru b)"
    proof
      fix y assume "y \<in> (\<lambda>pid. the (pageTable b pid)) ` dom (pageTable b)"
      then obtain x i where "pageTable b x = Some i" "y = the (pageTable b x)" by blast
      then show "y \<in> set (lru b)" using D(5) by simp
    qed
    show "(\<lambda>idx. pageID (pool b ! idx)) ` set (lru b) \<subseteq> dom (pageTable b)"
      using dom by simp
  qed
qed

section \<open>Cache coherence\<close>

text \<open>
  C5. After any sequence of \<open>fetchPage\<close>, \<open>allocatePage\<close> and \<open>markDirty\<close> calls on a
  new buffer manager (over any storage manager), the page identifiers in the page table are
  exactly the identifiers held by the frames in use; the frames in use are the first
  \<open>length lru\<close> frames and every other frame is still empty; every entry of the table
  points to the frame that holds its page, no two frames in use hold the same page, there
  are as many entries as members of the recency list and at most \<open>BUFFER_CAPACITY\<close>, and
  the table is a bijection between its domain and the members of the recency list, which
  has no repetition.
\<close>

theorem cache_coherence:
  fixes s :: StorageManager and calls :: "bm_call list"
  defines "b \<equiv> bm_run (BufferManager_init s) calls"
  shows "dom (pageTable b) = (\<lambda>idx. pageID (pool b ! idx)) ` set (lru b)
       \<and> set (lru b) = {0..<length (lru b)}
       \<and> (\<forall>idx. idx < BUFFER_CAPACITY \<and> idx \<notin> set (lru b) \<longrightarrow> pageID (pool b ! idx) = - 1)
       \<and> (\<forall>pid idx. pageTable b pid = Some idx \<longrightarrow> idx < BUFFER_CAPACITY \<and> pageID (pool b ! idx) = pid)
       \<and> inj_on (\<lambda>idx. pageID (pool b ! idx)) (set (lru b))
       \<and> card (dom (pageTable b)) = length (lru b)
       \<and> length (lru b) \<le> BUFFER_CAPACITY
       \<and> length (pool b) = BUFFER_CAPACITY
       \<and> distinct (lru b)
       \<and> bij_betw (\<lambda>pid. the (pageTable b pid)) (dom (pageTable b)) (set (lru b))"
proof -
  have inv: "bm_inv b" unfolding b_def by (rule bm_run_inv[OF bm_inv_init])
  note D = bm_invD[OF inv] and C = bm_inv_coherent[OF inv]
  have "idx < BUFFER_CAPACITY \<and> pageID (pool b ! idx) = pid" if "pageTable b pid = Some idx" for pid idx
    using D(6)[OF that] bm_inv_frame_lt[OF inv D(5)[OF that]] by simp
  then show ?thesis using D(1,2,3,4,8) C by (intro conjI allI impI) blast+
qed

lemma put_page_nth: "n < length (put_page f n d) \<and> put_page f n d ! n = d"
  by (simp add: put_page_def nth_append)

theorem cache_coherence_witness:
  "(let b = (bm_run (BufferManager_init (StorageManager_init ''database.db''))
             [AllocatePage, AllocatePage, AllocatePage, FetchPage 0, AllocatePage,
              MarkDirty 1, FetchPage 7])
    in dom (pageTable b) = (\<lambda>idx. pageID (pool b ! idx)) ` set (lru b)
       \<and> card (dom (pageTable b)) = length (lru b)
       \<and> lru b = [2, 1, 0]
       \<and> map pageID (pool b) = [0, 3, 7]
       \<and> map (pageTable b) [0, 1, 2, 3, 7] = [Some 0, None, None, Some 1, Some 2])"
proof -
  define b where "b = (bm_run (BufferManager_init (StorageManager_init ''database.db''))
             [AllocatePage, AllocatePage, AllocatePage, FetchPage 0, AllocatePage,
              MarkDirty 1, FetchPage 7])"
  have c: "lru b = [2, 1, 0] \<and> map pageID (pool b) = [0, 3, 7]
       \<and> map (pageTable b) [0, 1, 2, 3, 7] = [Some 0, None, None, Some 1, Some 2]"
    unfolding b_def by code_simp
  note cc = cache_coherence[of "StorageManager_init ''database.db''"
      "[AllocatePage, AllocatePage, AllocatePage, FetchPage 0, AllocatePage, MarkDirty 1, FetchPage 7]",
      folded b_def]
  show ?thesis unfolding Let_def b_def[symmetric] using cc c by blast
qed

section \<open>Eviction\<close>

text \<open>
  What \<open>evict\<close> does. With fewer than \<open>BUFFER_CAPACITY\<close> frames in use it returns the index
  equal to the number of frames in use and changes nothing. Otherwise it returns the frame
  at the tail of the recency list; it hands the victim's bytes to \<open>writeDisk\<close> under the
  victim's page identifier exactly when the victim is dirty, removes the victim's page table
  entry and its recency-list entry, and leaves every frame as it was. Whether the bytes
  reach the file is up to \<open>writeDisk\<close>: they do when the stream has not failed.
\<close>

lemma evict_effect:
  "(length (lru b) < BUFFER_CAPACITY \<longrightarrow> evict b = (length (lru b), b)) \<and>
   (\<not> length (lru b) < BUFFER_CAPACITY \<longrightarrow>
      fst (evict b) = last (lru b) \<and>
      pool (snd (evict b)) = pool b \<and>
      nextPageID (snd (evict b)) = nextPageID b \<and>
      pageTable (snd (evict b)) = (pageTable b)(pageID (pool b ! last (lru b)) := None) \<and>
      lru (snd (evict b)) = butlast (lru b) \<and>
      sm (snd (evict b)) =
        (if dirty (pool b ! last (lru b))
         then writeDisk (say (Evicting (pageID (pool b ! last (lru b)))) (sm b))
                (pageID (pool b ! last (lru b))) (data (pool b ! last (lru b)))
         else say (Evicting (pageID (pool b ! last (lru b)))) (sm b)) \<and>
      (\<not> dirty (pool b ! last (lru b)) \<longrightarrow>
         dbFile (sm (snd (evict b))) = dbFile (sm b) \<and>
         console (sm (snd (evict b))) = console (sm b) @ [Evicting (pageID (pool b ! last (lru b)))]) \<and>
      (dirty (pool b ! last (lru b)) \<longrightarrow>
         console (sm (snd (evict b))) =
           console (sm b) @ [Evicting (pageID (pool b ! last (lru b))),
                             DiskWriting (pageID (pool b ! last (lru b)))]) \<and>
      (dirty (pool b ! last (lru b)) \<and> \<not> failbit (sm b) \<and> 0 \<le> pageID (pool b ! last (lru b)) \<longrightarrow>
         nat (pageID (pool b ! last (lru b))) < length (dbFile (sm (snd (evict b)))) \<and>
         dbFile (sm (snd (evict b))) ! nat (pageID (pool b ! last (lru b))) = data (pool b ! last (lru b))))"
  by (simp add: evict_free evict_full writeDisk_def say_def Let_def put_page_nth)

section \<open>Page allocation\<close>

lemma bm_step_nextPageID:
  "nextPageID (bm_step b c) = nextPageID b + (if c = AllocatePage then 1 else 0)"
  by (cases c) simp_all

lemma bm_ids_consecutive:
  "bm_ids b cs = map (\<lambda>i. nextPageID b + int i) [0..<length (filter (\<lambda>c. c = AllocatePage) cs)]"
proof (induction cs arbitrary: b)
  case Nil
  then show ?case by simp
next
  case (Cons c cs)
  let ?n = "length (filter (\<lambda>c. c = AllocatePage) cs)"
  show ?case
  proof (cases "c = AllocatePage")
    case True
    have "map (\<lambda>i. nextPageID b + int i) [0..<Suc ?n]
        = nextPageID b # map (\<lambda>i. nextPageID b + 1 + int i) [0..<?n]"
      by (simp add: upt_conv_Cons map_Suc_upt[symmetric] del: upt_Suc)
    then show ?thesis using True Cons.IH[of "snd (allocatePage b)"] by simp
  next
    case False
    then have "bm_ids b (c # cs) = bm_ids (bm_step b c) cs" by (cases c) simp_all
    then show ?thesis using False Cons.IH[of "bm_step b c"] by (simp add: bm_step_nextPageID)
  qed
qed

lemma consecutive_ids_sorted: "sorted_wrt (<) (map (\<lambda>i. (a::int) + int i) [0..<n])"
  by (simp add: sorted_wrt_map)

text \<open>
  C9. In every state of the buffer manager that satisfies its invariant, \<open>allocatePage\<close>
  returns the current value of the counter and advances the counter by one; on return that
  page is resident, in a frame whose buffer is the all-zero page and whose dirty flag is
  set. Over any sequence of calls the identifiers returned are the consecutive values of the
  counter, so they are strictly increasing and never repeat.
\<close>

theorem allocatePage_next_identifier:
  assumes "bm_inv b"
  shows "fst (allocatePage b) = nextPageID b
       \<and> nextPageID (snd (allocatePage b)) = nextPageID b + 1
       \<and> (\<exists>idx. pageTable (snd (allocatePage b)) (nextPageID b) = Some idx \<and> idx < BUFFER_CAPACITY
              \<and> pool (snd (allocatePage b)) ! idx = \<lparr>pageID = nextPageID b, dirty = True, data = zero_page\<rparr>)
       \<and> bm_inv (snd (allocatePage b))
       \<and> bm_ids b calls =
            map (\<lambda>i. nextPageID b + int i) [0..<length (filter (\<lambda>c. c = AllocatePage) calls)]
       \<and> sorted_wrt (<) (bm_ids b calls)
       \<and> distinct (bm_ids b calls)"
proof -
  let ?b1 = "bm_say (Allocating (nextPageID b)) (b\<lparr>nextPageID := nextPageID b + 1\<rparr>)"
  let ?p = "fst (fetchPage ?b1 (nextPageID b))" and ?b2 = "snd (fetchPage ?b1 (nextPageID b))"
  have inv1: "bm_inv ?b1" using assms by simp
  have inv2: "bm_inv ?b2" by (rule fetchPage_inv[OF inv1])
  have t2: "pageTable ?b2 (nextPageID b) = Some ?p" by (rule fetchPage_table)
  have lt: "?p < BUFFER_CAPACITY" by (rule fetchPage_lt[OF inv1])
  have len: "length (pool ?b2) = BUFFER_CAPACITY" using bm_invD(1)[OF inv2] .
  have pid: "pageID (pool ?b2 ! ?p) = nextPageID b" using bm_invD(6)[OF inv2 t2] .
  have eq: "snd (allocatePage b) = markDirty (store ?p (\<lambda>_. zero_page) ?b2) (nextPageID b)"
    by (simp add: allocatePage_def Let_def case_prod_beta)
  have frame: "pool (snd (allocatePage b)) ! ?p = \<lparr>pageID = nextPageID b, dirty = True, data = zero_page\<rparr>"
    unfolding eq using t2 lt len pid
    by (simp add: markDirty_def store_def)
  have "pageTable (snd (allocatePage b)) (nextPageID b) = Some ?p" unfolding eq using t2 by simp
  then have res: "\<exists>idx. pageTable (snd (allocatePage b)) (nextPageID b) = Some idx \<and> idx < BUFFER_CAPACITY
              \<and> pool (snd (allocatePage b)) ! idx = \<lparr>pageID = nextPageID b, dirty = True, data = zero_page\<rparr>"
    using lt frame by blast
  have srt: "sorted_wrt (<) (bm_ids b calls)"
    unfolding bm_ids_consecutive by (rule consecutive_ids_sorted)
  then have "distinct (bm_ids b calls)"
    using strict_sorted_iff by blast
  then show ?thesis using res srt allocatePage_inv[OF assms] bm_ids_consecutive[of b calls] by simp
qed

theorem allocatePage_next_identifier_witness:
  "(let b = BufferManager_init (StorageManager_init ''database.db'');
        calls = [AllocatePage, FetchPage 0, AllocatePage, MarkDirty 0, FetchPage 9, AllocatePage,
                 AllocatePage]
    in bm_inv b \<and> fst (allocatePage b) = 0 \<and> nextPageID (snd (allocatePage b)) = 1 \<and>
       cached (snd (allocatePage b)) 0 = Some zero_page \<and>
       bm_ids b calls = [0, 1, 2, 3] \<and>
       sorted_wrt (<) (bm_ids b calls) \<and> distinct (bm_ids b calls))"
proof -
  define b where "b = BufferManager_init (StorageManager_init ''database.db'')"
  define calls where "calls = [AllocatePage, FetchPage 0, AllocatePage, MarkDirty 0, FetchPage 9,
    AllocatePage, AllocatePage]"
  have inv: "bm_inv b" unfolding b_def by (rule bm_inv_init)
  have c1: "nextPageID b = 0" and c2: "cached (snd (allocatePage b)) 0 = Some zero_page"
    and c3: "bm_ids b calls = [0, 1, 2, 3]"
    unfolding b_def calls_def by code_simp+
  note th = allocatePage_next_identifier[OF inv, of calls]
  have a1: "fst (allocatePage b) = 0" using th[THEN conjunct1] c1 by simp
  have a2: "nextPageID (snd (allocatePage b)) = 1" using th[THEN conjunct2, THEN conjunct1] c1 by simp
  have a3: "sorted_wrt (<) (bm_ids b calls)" and a4: "distinct (bm_ids b calls)"
    using th by blast+
  show ?thesis unfolding Let_def b_def[symmetric] calls_def[symmetric]
    by (intro conjI inv a1 a2 c2 c3 a3 a4)
qed

section \<open>The demonstration sequence\<close>

text \<open>
  C2. From a fresh tree, inserting 10, 20, 30, 40, 50 succeeds and ends with page 0 a leaf
  holding [10, 20], page 1 a leaf holding [30, 40, 50], the root on page 2, internal, with
  the single key 30 and the children [0, 1]; the pages allocated are 0, 1 and 2 and no
  victim was ever evicted.
\<close>

theorem demo_scenario:
  "(case inserts (fresh_tree name) [10, 20, 30, 40, 50] of
      None \<Rightarrow> False
    | Some t \<Rightarrow>
        map_option (\<lambda>n. (isLeaf n, leaf_keys n)) (cached (bm t) 0) = Some (True, [10, 20]) \<and>
        map_option (\<lambda>n. (isLeaf n, leaf_keys n)) (cached (bm t) 1) = Some (True, [30, 40, 50]) \<and>
        rootPage t = 2 \<and>
        map_option (\<lambda>n. (isLeaf n, leaf_keys n, take (nat (numKeys n + 1)) (children n)))
          (cached (bm t) 2) = Some (False, [30], [0, 1]) \<and>
        nextPageID (bm t) = 3 \<and>
        allocated (console (sm (bm t))) = [0, 1, 2] \<and>
        filter is_eviction (console (sm (bm t))) = [])"
  by code_simp

section \<open>Lemmas on fetching and allocating\<close>

lemma fetchPage_frame:
  "fst (fetchPage b pid) =
     (case pageTable b pid of
        Some idx \<Rightarrow> idx
      | None \<Rightarrow> if length (lru b) < BUFFER_CAPACITY then length (lru b) else last (lru b))"
  by (simp add: fetchPage_hit fetchPage_miss evict_free evict_full split: option.splits)

lemma evict_pool [simp]: "pool (snd (evict b)) = pool b"
  by (cases "length (lru b) < BUFFER_CAPACITY") (simp_all add: evict_free evict_full)

lemma evict_table_sub:
  "pageTable (snd (evict b)) q = Some g \<Longrightarrow> pageTable b q = Some g"
  by (cases "length (lru b) < BUFFER_CAPACITY") (simp_all add: evict_free evict_full split: if_splits)

lemma fetchPage_other_frames:
  "g \<noteq> fst (fetchPage b pid) \<Longrightarrow> pool (snd (fetchPage b pid)) ! g = pool b ! g"
  by (cases "pageTable b pid")
     (auto simp: fetchPage_hit fetchPage_miss load_def)

lemma fetchPage_hit_pool:
  "pageTable b pid = Some idx \<Longrightarrow> pool (snd (fetchPage b pid)) = pool b"
  by (simp add: fetchPage_hit)

lemma fetchPage_hit_table:
  "pageTable b pid = Some idx \<Longrightarrow> pageTable (snd (fetchPage b pid)) = pageTable b"
  by (simp add: fetchPage_hit)

lemma fetchPage_keeps:
  assumes "bm_inv b" "pageTable b q = Some g" "g \<noteq> fst (fetchPage b pid)"
  shows "pageTable (snd (fetchPage b pid)) q = Some g"
proof (cases "pageTable b pid")
  case (Some idx)
  then show ?thesis using assms(2) by (simp add: fetchPage_hit)
next
  case None
  then have qp: "q \<noteq> pid" using assms(2) by auto
  show ?thesis
  proof (cases "length (lru b) < BUFFER_CAPACITY")
    case True
    then show ?thesis using None qp assms(2)
      by (simp add: fetchPage_miss evict_free load_def)
  next
    case False
    then have ne: "lru b \<noteq> []" by (auto simp: BUFFER_CAPACITY_def)
    have f: "fst (fetchPage b pid) = last (lru b)" using None False by (simp add: fetchPage_frame)
    have "pageTable b (pageID (pool b ! last (lru b))) = Some (last (lru b))"
      using bm_invD(7)[OF assms(1)] ne by simp
    then have "q \<noteq> pageID (pool b ! last (lru b))" using assms(2,3) f by auto
    then show ?thesis using None False qp assms(2)
      by (simp add: fetchPage_miss evict_full load_def)
  qed
qed

lemma fetchPage_new_table:
  assumes "pageTable (snd (fetchPage b pid)) q = Some g" "q \<noteq> pid"
  shows "pageTable b q = Some g"
proof (cases "pageTable b pid")
  case (Some idx)
  then show ?thesis using assms by (simp add: fetchPage_hit)
next
  case None
  then have "pageTable (snd (evict (bm_say (BufferMiss pid) b))) q = Some g"
    using assms by (simp add: fetchPage_miss load_def)
  from evict_table_sub[OF this] show ?thesis by simp
qed

lemma readDisk_failed:
  "failbit s \<Longrightarrow> readDisk s pid buf = (buf, say (DiskReading pid) s)"
  by (simp add: readDisk_def say_def Let_def)

lemma writeDisk_failed:
  "failbit s \<Longrightarrow> writeDisk s pid d = say (DiskWriting pid) s"
  by (simp add: writeDisk_def say_def Let_def)

lemma say_simps [simp]:
  "failbit (say e s) = failbit s" "dbFile (say e s) = dbFile s" "fileName (say e s) = fileName s"
  "console (say e s) = console s @ [e]"
  by (simp_all add: say_def)

lemma fetchPage_failed:
  assumes "failbit (sm b)"
  shows "failbit (sm (snd (fetchPage b pid)))"
    and "dbFile (sm (snd (fetchPage b pid))) = dbFile (sm b)"
    and "data (pool (snd (fetchPage b pid)) ! g) = data (pool b ! g)"
proof -
  have *: "failbit (sm (snd (fetchPage b pid))) \<and> dbFile (sm (snd (fetchPage b pid))) = dbFile (sm b)
      \<and> data (pool (snd (fetchPage b pid)) ! g) = data (pool b ! g)"
  proof (cases "pageTable b pid")
    case (Some idx)
    then show ?thesis using assms by (simp add: fetchPage_hit)
  next
    case None
    show ?thesis
    proof (cases "length (lru b) < BUFFER_CAPACITY")
      case True
      then show ?thesis using None assms
        by (cases "length (lru b) < length (pool b)")
           (simp_all add: fetchPage_miss evict_free load_def readDisk_failed nth_list_update
                          list_update_beyond)
    next
      case False
      then show ?thesis using None assms
        by (cases "last (lru b) < length (pool b)")
           (simp_all add: fetchPage_miss evict_full load_def readDisk_failed writeDisk_failed
                          nth_list_update list_update_beyond)
    qed
  qed
  show "failbit (sm (snd (fetchPage b pid)))"
    and "dbFile (sm (snd (fetchPage b pid))) = dbFile (sm b)"
    and "data (pool (snd (fetchPage b pid)) ! g) = data (pool b ! g)"
    using * by simp_all
qed

lemma fetchPage_length_lru:
  assumes "bm_inv b" "length (lru b) = BUFFER_CAPACITY"
  shows "length (lru (snd (fetchPage b pid))) = BUFFER_CAPACITY"
proof -
  have "fst (fetchPage b pid) \<in> set (lru b)"
  proof (cases "pageTable b pid")
    case (Some idx)
    then show ?thesis using bm_invD(5)[OF assms(1) Some] by (simp add: fetchPage_frame)
  next
    case None
    have "lru b \<noteq> []" using assms(2) by (auto simp: BUFFER_CAPACITY_def)
    then show ?thesis using None assms(2) by (simp add: fetchPage_frame)
  qed
  then show ?thesis
    using distinct_length_removeAll[OF bm_invD(2)[OF assms(1)]] assms(2)
    by (simp add: fetchPage_lru[OF assms(1)])
qed

lemma allocatePage_eq:
  "snd (allocatePage b) =
     markDirty (store (alloc_frame b) (\<lambda>_. zero_page)
        (snd (fetchPage (bm_say (Allocating (nextPageID b)) (b\<lparr>nextPageID := nextPageID b + 1\<rparr>))
               (nextPageID b)))) (nextPageID b)"
  by (simp add: allocatePage_def alloc_frame_def Let_def case_prod_beta)

lemma alloc_frame_eq:
  "alloc_frame b =
     (case pageTable b (nextPageID b) of
        Some idx \<Rightarrow> idx
      | None \<Rightarrow> if length (lru b) < BUFFER_CAPACITY then length (lru b) else last (lru b))"
  by (simp add: alloc_frame_def fetchPage_frame split: option.splits)

lemma allocatePage_table:
  "pageTable (snd (allocatePage b)) (nextPageID b) = Some (alloc_frame b)"
  by (simp add: allocatePage_eq fetchPage_table alloc_frame_def)

lemma alloc_frame_lt: "bm_inv b \<Longrightarrow> alloc_frame b < BUFFER_CAPACITY"
  unfolding alloc_frame_def by (rule fetchPage_lt) simp

lemma allocatePage_frame:
  assumes "bm_inv b"
  shows "pool (snd (allocatePage b)) ! alloc_frame b =
           \<lparr>pageID = nextPageID b, dirty = True, data = zero_page\<rparr>"
proof -
  let ?b1 = "bm_say (Allocating (nextPageID b)) (b\<lparr>nextPageID := nextPageID b + 1\<rparr>)"
  let ?b2 = "snd (fetchPage ?b1 (nextPageID b))"
  have inv1: "bm_inv ?b1" using assms by simp
  have inv2: "bm_inv ?b2" by (rule fetchPage_inv[OF inv1])
  have t2: "pageTable ?b2 (nextPageID b) = Some (alloc_frame b)"
    unfolding alloc_frame_def by (rule fetchPage_table)
  have lt: "alloc_frame b < length (pool ?b2)"
    using alloc_frame_lt[OF assms] bm_invD(1)[OF inv2] by simp
  have pid: "pageID (pool ?b2 ! alloc_frame b) = nextPageID b" using bm_invD(6)[OF inv2 t2] .
  show ?thesis unfolding allocatePage_eq using t2 lt pid
    by (simp add: markDirty_def store_def)
qed

lemma allocatePage_other_frames:
  assumes "g \<noteq> alloc_frame b"
  shows "pool (snd (allocatePage b)) ! g = pool b ! g"
proof -
  let ?b1 = "bm_say (Allocating (nextPageID b)) (b\<lparr>nextPageID := nextPageID b + 1\<rparr>)"
  let ?b2 = "snd (fetchPage ?b1 (nextPageID b))"
  have t2: "pageTable ?b2 (nextPageID b) = Some (alloc_frame b)"
    unfolding alloc_frame_def by (rule fetchPage_table)
  have "pool ?b2 ! g = pool b ! g"
    using fetchPage_other_frames[of g ?b1 "nextPageID b"] assms by (simp add: alloc_frame_def)
  then show ?thesis unfolding allocatePage_eq using t2 assms
    by (cases "alloc_frame b < length (pool ?b2)")
       (simp_all add: markDirty_def store_def nth_list_update list_update_beyond)
qed

lemma allocatePage_keeps:
  assumes "bm_inv b" "pageTable b q = Some g" "g \<noteq> alloc_frame b"
  shows "pageTable (snd (allocatePage b)) q = Some g"
  using fetchPage_keeps[of "bm_say (Allocating (nextPageID b)) (b\<lparr>nextPageID := nextPageID b + 1\<rparr>)" q g "nextPageID b"]
    assms
  by (simp add: allocatePage_eq alloc_frame_def)

lemma allocatePage_lru:
  assumes "bm_inv b"
  shows "lru (snd (allocatePage b)) = alloc_frame b # removeAll (alloc_frame b) (lru b)"
  using fetchPage_lru[of "bm_say (Allocating (nextPageID b)) (b\<lparr>nextPageID := nextPageID b + 1\<rparr>)" "nextPageID b"]
    assms
  by (simp add: allocatePage_eq alloc_frame_def)

lemma allocatePage_failed:
  assumes "failbit (sm b)"
  shows "failbit (sm (snd (allocatePage b)))"
  using fetchPage_failed(1)[of "bm_say (Allocating (nextPageID b)) (b\<lparr>nextPageID := nextPageID b + 1\<rparr>)" "nextPageID b"]
    assms
  by (simp add: allocatePage_eq)

section \<open>Lemmas on the operations of the tree\<close>

lemma deref_simps [simp]:
  "deref (touch i b) g = deref b g" "deref (bm_say e b) g = deref b g"
  "deref (markDirty b pid) g = deref b g"
  by (simp_all add: deref_def)

lemma deref_store:
  "p < length (pool b) \<Longrightarrow> deref (store p f b) g = (if g = p then f (deref b p) else deref b g)"
  by (simp add: deref_def store_data)

lemma store_store:
  "p < length (pool b) \<Longrightarrow> store p f (store p g b) = store p (\<lambda>n. f (g n)) b"
  by (simp add: store_def)

lemma pool_store:
  "p < length (pool b) \<Longrightarrow>
   pool (store p f b) ! g = (if g = p then (pool b ! p)\<lparr>data := f (data (pool b ! p))\<rparr> else pool b ! g)"
  by (simp add: store_def nth_list_update)

lemma array_write_zero_keys [simp]:
  "array_write (keys zero_page) 0 k = Some [k, 0, 0]"
  by (simp add: array_write_def zero_page_def MAX_KEYS_def numeral_3_eq_3)

lemma array_write_zero_children:
  "array_write (children zero_page) 0 l = Some [l, 0, 0, 0]"
  "array_write [l, 0, 0, 0] 1 r = Some [l, r, 0, 0]"
  by (simp_all add: array_write_def zero_page_def MAX_KEYS_def eval_nat_numeral)

lemma insertIntoParent_root:
  assumes "bm_inv (bm t)"
  shows "insertIntoParent t (rootPage t) key right =
           Some \<lparr>bm = bm_say (NewRootCreated (nextPageID (bm t)))
                        (store (alloc_frame (bm t)) (\<lambda>_. new_root_node (rootPage t) key right)
                           (touch (alloc_frame (bm t))
                              (bm_say (BufferHit (nextPageID (bm t))) (snd (allocatePage (bm t)))))),
                 rootPage = nextPageID (bm t)\<rparr>"
proof -
  let ?b1 = "snd (allocatePage (bm t))" and ?new = "nextPageID (bm t)" and ?fr = "alloc_frame (bm t)"
  let ?b2 = "touch ?fr (bm_say (BufferHit ?new) ?b1)"
  have inv1: "bm_inv ?b1" by (rule allocatePage_inv[OF assms(1)])
  have f: "fetchPage ?b1 ?new = (?fr, ?b2)"
    by (rule fetchPage_hit[OF allocatePage_table])
  have lt: "?fr < length (pool ?b2)"
    using alloc_frame_lt[OF assms(1)] bm_invD(1)[OF inv1] by simp
  have z: "deref ?b2 ?fr = zero_page"
    using allocatePage_frame[OF assms(1)] by (simp add: deref_def)
  have iz: "zero_page\<lparr>isLeaf := False\<rparr> = zero_page" by (simp add: zero_page_def)
  have st: "store ?fr (\<lambda>n. n\<lparr>isLeaf := False, keys := [key, 0, 0],
                 children := [rootPage t, right, 0, 0], numKeys := 1\<rparr>) ?b2
          = store ?fr (\<lambda>_. new_root_node (rootPage t) key right) ?b2"
    using z lt by (simp add: store_def deref_def new_root_node_def iz)
  show ?thesis
    unfolding insertIntoParent_def using lt z
    by (simp add: case_prod_beta f Let_def deref_store store_store array_write_zero_children iz st)
qed

lemma splitLeaf_copy_done:
  "\<not> i < numKeys n \<Longrightarrow> splitLeaf_copy n s off i = Some n"
  by (subst splitLeaf_copy.simps) simp

lemma splitLeaf_copy_step:
  "i < numKeys n \<Longrightarrow> 0 \<le> i \<Longrightarrow> i < int (length (keys n)) \<Longrightarrow>
   0 \<le> off + i \<Longrightarrow> off + i < int (length s) \<Longrightarrow>
   splitLeaf_copy n s off i =
     splitLeaf_copy (n\<lparr>keys := (keys n)[nat i := s ! nat (off + i)]\<rparr>) s off (i + 1)"
  by (subst splitLeaf_copy.simps) (simp add: array_read_def array_write_def)

lemma splitLeaf_copy_two:
  assumes "numKeys n = 2" "length (keys n) = 3" "length s = 4" "off = 0 \<or> off = 2"
  shows "splitLeaf_copy n s off 0 =
           Some (n\<lparr>keys := (keys n)[0 := s ! nat off, 1 := s ! nat (off + 1)]\<rparr>)"
proof -
  let ?n1 = "n\<lparr>keys := (keys n)[nat 0 := s ! nat (off + 0)]\<rparr>"
  let ?n2 = "?n1\<lparr>keys := (keys ?n1)[nat 1 := s ! nat (off + 1)]\<rparr>"
  have "splitLeaf_copy n s off 0 = splitLeaf_copy ?n1 s off (0 + 1)"
    using assms by (intro splitLeaf_copy_step) auto
  also have "\<dots> = splitLeaf_copy ?n2 s off (1 + 1)"
    using assms splitLeaf_copy_step[of 1 ?n1 off s] by auto
  also have "\<dots> = Some ?n2"
    using assms by (intro splitLeaf_copy_done) auto
  finally show ?thesis by simp
qed

lemma alloc_frame_say: "alloc_frame (bm_say e b) = alloc_frame b"
  by (simp add: alloc_frame_eq split: option.splits)

lemma store_const_chain:
  assumes "p < length (pool b)" "q < length (pool b)" "p \<noteq> q"
  shows "store p (\<lambda>_. a) (store q (\<lambda>_. c) (store p f2 (store q f1 (store p f0 b))))
       = store p (\<lambda>_. a) (store q (\<lambda>_. c) b)"
  using assms by (simp add: store_def list_update_swap[of p q])

lemma splitLeaf_effect:
  fixes t :: BPlusTree and old key :: int and fo :: nat
  defines "d \<equiv> data (pool (bm t) ! fo)"
  defines "s \<equiv> sort (keys d @ [key])"
  defines "fn \<equiv> alloc_frame (bm t)"
  defines "new \<equiv> nextPageID (bm t)"
  assumes inv: "bm_inv (bm t)"
    and res: "pageTable (bm t) old = Some fo"
    and nf: "alloc_frame (bm t) \<noteq> fo"
    and len: "length (keys d) = 3"
  shows "\<exists>b'. splitLeaf t old key = insertIntoParent (t\<lparr>bm := b'\<rparr>) old (s ! 2) new \<and>
           bm_inv b' \<and> nextPageID b' = new + 1 \<and>
           pageTable b' old = Some fo \<and> pageTable b' new = Some fn \<and> fn < BUFFER_CAPACITY \<and>
           pool b' ! fo = (pool (bm t) ! fo)\<lparr>data := d\<lparr>numKeys := 2, keys := (keys d)[0 := s ! 0, 1 := s ! 1]\<rparr>,
                                             dirty := True\<rparr> \<and>
           pool b' ! fn = \<lparr>pageID = new, dirty = True,
                           data = zero_page\<lparr>isLeaf := True, numKeys := 2, keys := [s ! 2, s ! 3, 0]\<rparr>\<rparr> \<and>
           (\<forall>g. g \<noteq> fo \<and> g \<noteq> fn \<longrightarrow> pool b' ! g = pool (bm t) ! g) \<and>
           (\<forall>q g. pageTable (bm t) q = Some g \<and> g \<noteq> fn \<longrightarrow> pageTable b' q = Some g) \<and>
           (\<forall>q g. pageTable b' q = Some g \<and> q \<noteq> new \<longrightarrow> pageTable (bm t) q = Some g) \<and>
           lru b' = fn # fo # removeAll fn (removeAll fo (lru (bm t))) \<and>
           (failbit (sm (bm t)) \<longrightarrow> failbit (sm b'))"
proof -
  let ?b0 = "bm_say NodeFull (bm t)"
  let ?b1 = "snd (allocatePage ?b0)"
  let ?b2 = "touch fo (bm_say (BufferHit old) ?b1)"
  let ?b3 = "touch fn (bm_say (BufferHit new) ?b2)"
  let ?n1 = "d\<lparr>numKeys := 2, keys := (keys d)[0 := s ! 0, 1 := s ! 1]\<rparr>"
  let ?n2 = "zero_page\<lparr>isLeaf := True, numKeys := 2, keys := [s ! 2, s ! 3, 0]\<rparr>"
  let ?b8 = "store fn (\<lambda>_. ?n2) (store fo (\<lambda>_. ?n1) ?b3)"
  let ?b11 = "bm_say (SplitComplete new) (markDirty (markDirty ?b8 old) new)"
  have newf [simp]: "nextPageID (bm t) = new" by (simp add: new_def)
  have fnf [simp]: "alloc_frame (bm t) = fn" by (simp add: fn_def)
  have inv0: "bm_inv ?b0" using inv by simp
  have inv1: "bm_inv ?b1" by (rule allocatePage_inv[OF inv0])
  have fn0: "alloc_frame ?b0 = fn" by (simp add: alloc_frame_say)
  have new0: "nextPageID ?b0 = new" by simp
  have fnlt: "fn < BUFFER_CAPACITY" using alloc_frame_lt[OF inv] by simp
  have folt: "fo < BUFFER_CAPACITY" using bm_inv_frame_lt[OF inv bm_invD(5)[OF inv res]] .
  have ne: "fn \<noteq> fo" using nf by simp
  have t1new: "pageTable ?b1 new = Some fn" using allocatePage_table[of ?b0] by (simp add: fn0 new0)
  have t1old: "pageTable ?b1 old = Some fo"
    using allocatePage_keeps[OF inv0, of old fo] res ne by (simp add: fn0)
  have f_old: "fetchPage ?b1 old = (fo, ?b2)" by (rule fetchPage_hit[OF t1old])
  have f_new: "fetchPage ?b2 new = (fn, ?b3)" by (rule fetchPage_hit) (simp add: t1new)
  have len1: "length (pool ?b1) = BUFFER_CAPACITY" by (rule bm_invD(1)[OF inv1])
  have p1fn: "pool ?b1 ! fn = \<lparr>pageID = new, dirty = True, data = zero_page\<rparr>"
    using allocatePage_frame[OF inv0] by (simp add: fn0 new0)
  have p1o: "pool ?b1 ! g = pool (bm t) ! g" if "g \<noteq> fn" for g
    using allocatePage_other_frames[of g ?b0] that by (simp add: fn0)
  have dfo: "deref ?b1 fo = d" using p1o[of fo] ne by (simp add: deref_def d_def)
  have dfn: "deref ?b1 fn = zero_page" using p1fn by (simp add: deref_def)
  have l3: "fo < length (pool ?b3)" "fn < length (pool ?b3)" using folt fnlt len1 by simp_all
  have ls: "length s = 4" using len by (simp add: s_def)
  have tk: "sort (keys d @ [key]) = s" by (simp add: s_def)
  have c1: "splitLeaf_copy (d\<lparr>numKeys := 2\<rparr>) s 0 0 = Some ?n1"
    using splitLeaf_copy_two[of "d\<lparr>numKeys := 2\<rparr>" s 0] len ls by simp
  have c2: "splitLeaf_copy (zero_page\<lparr>isLeaf := True, numKeys := 2\<rparr>) s 2 0 = Some ?n2"
    using splitLeaf_copy_two[of "zero_page\<lparr>isLeaf := True, numKeys := 2\<rparr>" s 2] ls
    by (simp add: zero_page_def MAX_KEYS_def eval_nat_numeral)
  have k0: "array_read (keys ?n2) 0 = Some (s ! 2)" by (simp add: array_read_def)
  have main: "splitLeaf t old key = insertIntoParent (t\<lparr>bm := ?b11\<rparr>) old (s ! 2) new"
    unfolding splitLeaf_def
    using l3 ne
    by (simp add: case_prod_beta new0 f_old f_new Let_def len tk deref_store dfo dfn MAX_KEYS_def
        c1 c2 store_const_chain array_read_def)
  have t11: "pageTable ?b11 = pageTable ?b1" by simp
  have pool8: "pool ?b8 ! g = (if g = fn then (pool ?b1 ! fn)\<lparr>data := ?n2\<rparr>
                              else if g = fo then (pool ?b1 ! fo)\<lparr>data := ?n1\<rparr> else pool ?b1 ! g)" for g
    using l3 ne by (simp add: pool_store)
  have pool11: "pool ?b11 ! g = (if g = fn then (pool ?b1 ! fn)\<lparr>data := ?n2, dirty := True\<rparr>
                              else if g = fo then (pool ?b1 ! fo)\<lparr>data := ?n1, dirty := True\<rparr>
                              else pool ?b1 ! g)" for g
    using l3 ne t1old t1new pool8
    by (cases "g < length (pool ?b1)")
       (auto simp: markDirty_def nth_list_update)
  have i2: "bm_inv ?b2"
    using bm_inv_touch[of "bm_say (BufferHit old) ?b1" fo] inv1 bm_invD(5)[OF inv1 t1old] by simp
  have i3: "bm_inv ?b3"
    using bm_inv_touch[of "bm_say (BufferHit new) ?b2" fn] i2 bm_invD(5)[OF inv1 t1new] ne by simp
  have inv11: "bm_inv ?b11" using i3 by simp
  have lru1: "lru ?b1 = fn # removeAll fn (lru (bm t))"
    using allocatePage_lru[OF inv0] by (simp add: fn0)
  have lru11: "lru ?b11 = fn # fo # removeAll fn (removeAll fo (lru (bm t)))"
    using ne by (simp add: lru1 removeAll_commute)
  have keeps: "pageTable ?b11 q = Some g" if "pageTable (bm t) q = Some g" "g \<noteq> fn" for q g
    using allocatePage_keeps[OF inv0, of q g] that by (simp add: fn0)
  have tback: "pageTable (bm t) q = Some g" if "pageTable ?b11 q = Some g" "q \<noteq> new" for q g
  proof -
    have "pageTable (snd (fetchPage (bm_say (Allocating new) (?b0\<lparr>nextPageID := new + 1\<rparr>)) new)) q = Some g"
      using that(1) by (simp add: allocatePage_eq new0)
    from fetchPage_new_table[OF this that(2)] show ?thesis by simp
  qed
  have fb: "failbit (sm ?b11)" if "failbit (sm (bm t))"
    using allocatePage_failed[of ?b0] that by simp
  show ?thesis
    apply (rule exI[of _ ?b11])
    apply (intro conjI allI impI)
    subgoal by (rule main)
    subgoal by (rule inv11)
    subgoal by simp
    subgoal by (simp add: t1old)
    subgoal by (simp add: t1new)
    subgoal by (rule fnlt)
    subgoal using ne p1o[of fo] by (simp only: pool11) simp
    subgoal by (simp only: pool11 p1fn) simp
    subgoal for g using p1o[of g] by (simp only: pool11) simp
    subgoal for q g using keeps[of q g] by simp
    subgoal for q g using tback[of q g] by simp
    subgoal by (rule lru11)
    subgoal by (rule fb)
    done
qed

lemma shift_neg: "i < 0 \<Longrightarrow> insertIntoLeaf_shift ks key i = Some (ks, i)"
  by (subst insertIntoLeaf_shift.simps) simp

lemma shift_stop:
  "0 \<le> i \<Longrightarrow> i < int (length ks) \<Longrightarrow> \<not> ks ! nat i > key \<Longrightarrow>
   insertIntoLeaf_shift ks key i = Some (ks, i)"
  by (subst insertIntoLeaf_shift.simps) (simp add: array_read_def)

lemma shift_step:
  "0 \<le> i \<Longrightarrow> i + 1 < int (length ks) \<Longrightarrow> ks ! nat i > key \<Longrightarrow>
   insertIntoLeaf_shift ks key i = insertIntoLeaf_shift (ks[nat (i + 1) := ks ! nat i]) key (i - 1)"
  by (subst insertIntoLeaf_shift.simps) (simp add: array_read_def array_write_def)

lemma shift_place:
  assumes "length ks = 3" "0 \<le> m" "m < 3" "sorted (take (nat m) ks)"
  shows "\<exists>ks' i ks''. insertIntoLeaf_shift ks key (m - 1) = Some (ks', i) \<and>
           array_write ks' (i + 1) key = Some ks'' \<and> length ks'' = 3 \<and>
           take (nat (m + 1)) ks'' = insort key (take (nat m) ks)"
proof -
  obtain a b c where ks: "ks = [a, b, c]"
    using assms(1) by (auto simp: length_Suc_conv eval_nat_numeral)
  consider "m = 0" | "m = 1" | "m = 2" using assms(2,3) by linarith
  then show ?thesis
  proof cases
    case 1
    then show ?thesis by (simp add: ks shift_neg array_write_def)
  next
    case 2
    show ?thesis
    proof (cases "a > key")
      case True
      then show ?thesis using 2
        by (simp add: ks shift_step[of 0] shift_neg array_write_def)
    next
      case False
      then show ?thesis using 2
        by (simp add: ks shift_stop[of 0] array_write_def)
    qed
  next
    case 3
    have ab: "a \<le> b" using assms(4) 3 by (simp add: ks eval_nat_numeral)
    show ?thesis
    proof (cases "b > key")
      case False
      then show ?thesis using 3 ab
        by (simp add: ks shift_stop[of 1] array_write_def eval_nat_numeral)
    next
      case True
      show ?thesis
      proof (cases "a > key")
        case False
        then show ?thesis using 3 ab True
          by (simp add: ks shift_step[of 1] shift_stop[of 0] array_write_def eval_nat_numeral)
      next
        case a: True
        then show ?thesis using 3 ab True
          by (simp add: ks shift_step[of 1] shift_step[of 0] shift_neg array_write_def eval_nat_numeral)
      qed
    qed
  qed
qed

lemma node_ok_mono: "node_ok K n \<Longrightarrow> K \<subseteq> K' \<Longrightarrow> node_ok K' n"
  by (auto simp: node_ok_def)

lemma node_ok_zero: "node_ok K zero_page"
  by (simp add: node_ok_def zero_page_def leaf_keys_def MAX_KEYS_def)

lemma findLeaf_leaf:
  "fetchPage b p = (f, b1) \<Longrightarrow> isLeaf (deref b1 f) \<Longrightarrow> findLeaf b p key = Some (p, b1)"
  by (subst findLeaf.simps) simp

lemma findLeaf_step:
  "fetchPage b p = (f, b1) \<Longrightarrow> \<not> isLeaf (deref b1 f) \<Longrightarrow>
   findLeaf_scan (deref b1 f) key 0 = Some i \<Longrightarrow>
   array_read (children (deref b1 f)) i = Some c \<Longrightarrow>
   findLeaf b p key = findLeaf b1 c key"
  by (subst findLeaf.simps) simp

lemma list4: "length (s::int list) = 4 \<Longrightarrow> \<exists>w x y z. s = [w, x, y, z]"
  by (auto simp: length_Suc_conv eval_nat_numeral)

lemma split_leaf_keys:
  assumes "length (keys d) = 3"
  shows "leaf_keys (split_old d key) = take 2 (sort (keys d @ [key]))"
    and "leaf_keys (split_new d key) = drop 2 (sort (keys d @ [key]))"
proof -
  have "length (sort (keys d @ [key])) = 4" using assms by simp
  from list4[OF this] obtain w x y z where e: "sort (keys d @ [key]) = [w, x, y, z]"
    by blast
  obtain a b c where k: "keys d = [a, b, c]"
    using assms by (auto simp: length_Suc_conv eval_nat_numeral)
  show "leaf_keys (split_old d key) = take 2 (sort (keys d @ [key]))"
    unfolding leaf_keys_def split_old_def e by (simp add: k eval_nat_numeral)
  show "leaf_keys (split_new d key) = drop 2 (sort (keys d @ [key]))"
    unfolding leaf_keys_def split_new_def e by (simp add: eval_nat_numeral)
qed

lemma split_nodes_ok:
  assumes "node_ok K d" "numKeys d = MAX_KEYS"
  shows "node_ok (insert key K) (split_old d key)"
    and "node_ok (insert key K) (split_new d key)"
    and "isLeaf (split_new d key)" and "isLeaf (split_old d key) = isLeaf d"
    and "sort (keys d @ [key]) ! 2 \<in> insert key K"
    and "distinct (leaf_keys d) \<Longrightarrow> key \<notin> K \<Longrightarrow>
           distinct (leaf_keys (split_old d key)) \<and> distinct (leaf_keys (split_new d key))"
proof -
  let ?s = "sort (keys d @ [key])"
  have len: "length (keys d) = 3" using assms(1) by (simp add: node_ok_def)
  have lk: "leaf_keys d = keys d" using assms(2) len by (simp add: leaf_keys_def MAX_KEYS_def)
  have sub: "set (keys d) \<subseteq> K" using assms(1) lk by (simp add: node_ok_def)
  have ss: "set ?s = insert key (set (keys d))" by simp
  have srt: "sorted ?s" by simp
  note lks = split_leaf_keys[OF len, of key]
  have st: "set (take 2 ?s) \<subseteq> insert key K" "set (drop 2 ?s) \<subseteq> insert key K"
    using sub ss set_take_subset[of 2 ?s] set_drop_subset[of 2 ?s] by blast+
  show "node_ok (insert key K) (split_old d key)"
    using assms(1) st(1) sorted_wrt_take[OF srt, of 2]
    by (simp add: node_ok_def lks) (simp add: split_old_def MAX_KEYS_def)
  show "node_ok (insert key K) (split_new d key)"
    using st(2) sorted_wrt_drop[OF srt, of 2]
    by (simp add: node_ok_def lks) (simp add: split_new_def MAX_KEYS_def zero_page_def)
  show "isLeaf (split_new d key)" by (simp add: split_new_def)
  show "isLeaf (split_old d key) = isLeaf d" by (simp add: split_old_def)
  have "?s ! 2 \<in> set ?s" using len by (intro nth_mem) simp
  then show "?s ! 2 \<in> insert key K" using ss sub by blast
  show "distinct (leaf_keys (split_old d key)) \<and> distinct (leaf_keys (split_new d key))"
    if "distinct (leaf_keys d)" "key \<notin> K"
  proof -
    have "distinct (keys d @ [key])" using that sub lk by auto
    then have "distinct ?s" by (simp only: distinct_sort)
    then show ?thesis by (simp add: lks del: sort_key_simps)
  qed
qed

text \<open>The node \<open>insertIntoLeaf\<close> leaves in a leaf with room.\<close>

lemma placed_node_ok:
  assumes "node_ok K d" "numKeys d < MAX_KEYS" "length ks = 3"
    "take (nat (numKeys d + 1)) ks = insort key (leaf_keys d)"
  shows "node_ok (insert key K) (d\<lparr>keys := ks, numKeys := numKeys d + 1\<rparr>)"
    and "distinct (leaf_keys d) \<Longrightarrow> key \<notin> K \<Longrightarrow>
           distinct (leaf_keys (d\<lparr>keys := ks, numKeys := numKeys d + 1\<rparr>))"
proof -
  have lk: "leaf_keys (d\<lparr>keys := ks, numKeys := numKeys d + 1\<rparr>) = insort key (leaf_keys d)"
    using assms(4) by (simp add: leaf_keys_def)
  have srt: "sorted (leaf_keys d)" and sub: "set (leaf_keys d) \<subseteq> K"
    using assms(1) by (simp_all add: node_ok_def)
  show "node_ok (insert key K) (d\<lparr>keys := ks, numKeys := numKeys d + 1\<rparr>)"
    using assms(1,2,3) srt sub
    by (simp add: node_ok_def lk sorted_insort set_insort_key) auto
  show "distinct (leaf_keys (d\<lparr>keys := ks, numKeys := numKeys d + 1\<rparr>))"
    if "distinct (leaf_keys d)" "key \<notin> K"
    using that sub by (auto simp: lk distinct_insort)
qed

lemma insertIntoLeaf_room:
  fixes t :: BPlusTree and f :: nat
  defines "d \<equiv> data (pool (bm t) ! f)"
  assumes inv: "bm_inv (bm t)" and res: "pageTable (bm t) pid = Some f"
    and ok: "node_ok K d" and room: "numKeys d < MAX_KEYS"
  shows "\<exists>b' n'. insertIntoLeaf t pid key = Some (t\<lparr>bm := b'\<rparr>) \<and> bm_inv b' \<and>
           pageTable b' = pageTable (bm t) \<and> lru b' = f # removeAll f (lru (bm t)) \<and>
           nextPageID b' = nextPageID (bm t) \<and>
           pool b' ! f = (pool (bm t) ! f)\<lparr>data := n', dirty := True\<rparr> \<and>
           (\<forall>g. g \<noteq> f \<longrightarrow> pool b' ! g = pool (bm t) ! g) \<and>
           node_ok (insert key K) n' \<and> isLeaf n' = isLeaf d \<and>
           parentPage n' = parentPage d \<and> nextLeaf n' = nextLeaf d \<and>
           (distinct (leaf_keys d) \<and> key \<notin> K \<longrightarrow> distinct (leaf_keys n')) \<and>
           failbit (sm b') = failbit (sm (bm t))"
proof -
  let ?b1 = "touch f (bm_say (BufferHit pid) (bm t))"
  have fp: "fetchPage (bm t) pid = (f, ?b1)" by (rule fetchPage_hit[OF res])
  have fin: "f \<in> set (lru (bm t))" using bm_invD(5)[OF inv res] .
  have flt: "f < length (pool (bm t))" using bm_inv_frame_lt[OF inv fin] bm_invD(1)[OF inv] by simp
  have inv1: "bm_inv ?b1" using bm_inv_touch[of "bm_say (BufferHit pid) (bm t)" f] inv fin by simp
  have dd: "deref (bm t) f = d" by (simp add: deref_def d_def)
  have len: "length (keys d) = 3" and n0: "0 \<le> numKeys d" and srt: "sorted (take (nat (numKeys d)) (keys d))"
    using ok by (simp_all add: node_ok_def leaf_keys_def)
  have n3: "numKeys d < 3" using room by (simp add: MAX_KEYS_def)
  from shift_place[OF len n0 n3 srt, of key]
  obtain ks' i ks'' where sh: "insertIntoLeaf_shift (keys d) key (numKeys d - 1) = Some (ks', i)"
    and wr: "array_write ks' (i + 1) key = Some ks''" and l3: "length ks'' = 3"
    and tk: "take (nat (numKeys d + 1)) ks'' = insort key (leaf_keys d)"
    by (auto simp: leaf_keys_def)
  let ?n = "d\<lparr>keys := ks'', numKeys := numKeys d + 1\<rparr>"
  let ?b' = "bm_say (KeyPlaced key pid) (markDirty (store f (\<lambda>_. ?n) ?b1) pid)"
  have st: "store f (\<lambda>n. n\<lparr>numKeys := numKeys n + 1\<rparr>) (store f (\<lambda>n. n\<lparr>keys := ks''\<rparr>) ?b1)
          = store f (\<lambda>_. ?n) ?b1"
    using flt dd by (simp add: store_def deref_def)
  have eq: "insertIntoLeaf t pid key = Some (t\<lparr>bm := ?b'\<rparr>)"
    unfolding insertIntoLeaf_def using room
    by (simp add: fp dd sh wr Let_def st)
  have pf: "pool ?b' ! f = (pool (bm t) ! f)\<lparr>data := ?n, dirty := True\<rparr>"
    using flt res by (simp add: markDirty_def store_def)
  have po: "pool ?b' ! g = pool (bm t) ! g" if "g \<noteq> f" for g
    using flt res that by (simp add: markDirty_def store_def)
  note pn = placed_node_ok[OF ok room l3 tk]
  show ?thesis
    apply (rule exI[of _ ?b'], rule exI[of _ ?n])
    apply (intro conjI allI impI)
    subgoal by (rule eq)
    subgoal using inv1 by simp
    subgoal by simp
    subgoal by simp
    subgoal by simp
    subgoal by (rule pf)
    subgoal for g by (rule po)
    subgoal by (rule pn(1))
    subgoal by simp
    subgoal by simp
    subgoal by simp
    subgoal using pn(2) by blast
    subgoal by simp
    done
qed

lemma insertIntoLeaf_full:
  assumes "pageTable (bm t) pid = Some f"
    and "\<not> numKeys (data (pool (bm t) ! f)) < MAX_KEYS"
  shows "insertIntoLeaf t pid key =
           splitLeaf (t\<lparr>bm := touch f (bm_say (BufferHit pid) (bm t))\<rparr>) pid key"
  unfolding insertIntoLeaf_def using assms
  by (simp add: fetchPage_hit deref_def)

lemma lru_after_root_and_leaf:
  assumes "distinct L" "length L = 3" "(2::nat) \<in> set L" "f \<in> set L" "f \<noteq> 2"
  shows "\<exists>z. f # removeAll f (2 # removeAll 2 L) = [f, 2, z] \<and> z \<noteq> f \<and> z \<noteq> 2 \<and> z \<in> set L"
proof -
  obtain x y z where L: "L = [x, y, z]"
    using assms(2) by (auto simp: length_Suc_conv eval_nat_numeral)
  show ?thesis using assms by (auto simp: L)
qed

section \<open>The two forms of the tree\<close>

lemma links_keptI:
  assumes "\<And>g. g < BUFFER_CAPACITY \<Longrightarrow>
        (pageID (pool b' ! g) < nextPageID b \<and>
         parentPage (data (pool b' ! g)) = parentPage (data (pool b ! g)) \<and>
         nextLeaf (data (pool b' ! g)) = nextLeaf (data (pool b ! g))) \<or>
        (nextPageID b \<le> pageID (pool b' ! g) \<and>
         parentPage (data (pool b' ! g)) = 0 \<and> nextLeaf (data (pool b' ! g)) = 0)"
  shows "links_kept b b'"
  unfolding links_kept_def
proof (intro allI impI conjI)
  fix g assume g: "g < BUFFER_CAPACITY" and n: "nextPageID b \<le> pageID (pool b' ! g)"
  from assms[OF g] n show "parentPage (data (pool b' ! g)) = 0" by auto
  from assms[OF g] n show "nextLeaf (data (pool b' ! g)) = 0" by auto
next
  fix g assume g: "g < BUFFER_CAPACITY" and n: "pageID (pool b' ! g) < nextPageID b"
  from assms[OF g] n
  show "parentPage (data (pool b' ! g)) = parentPage (data (pool b ! g))" by auto
  from assms[OF g] n
  show "nextLeaf (data (pool b' ! g)) = nextLeaf (data (pool b ! g))" by auto
qed

lemma split_links:
  "parentPage (split_old d key) = parentPage d" "nextLeaf (split_old d key) = nextLeaf d"
  "parentPage (split_new d key) = 0" "nextLeaf (split_new d key) = 0"
  by (simp_all add: split_old_def split_new_def zero_page_def)

lemma root_scan:
  assumes "root_ok r" "length (keys r) = 3"
  shows "\<exists>c. (c = 0 \<or> c = 1) \<and> findLeaf_scan r key 0 = Some c \<and>
             array_read (children r) c = Some c"
proof (cases "key \<ge> keys r ! 0")
  case True
  have "findLeaf_scan r key 0 = findLeaf_scan r key 1"
    using assms True by (subst findLeaf_scan.simps) (simp add: root_ok_def array_read_def)
  also have "\<dots> = Some 1"
    using assms by (subst findLeaf_scan.simps) (simp add: root_ok_def)
  finally show ?thesis using assms by (simp add: root_ok_def array_read_def)
next
  case False
  have "findLeaf_scan r key 0 = Some 0"
    using assms False by (subst findLeaf_scan.simps) (simp add: root_ok_def array_read_def)
  then show ?thesis using assms by (simp add: root_ok_def array_read_def)
qed

text \<open>In a two-level tree \<open>findLeaf\<close> returns page 0 or page 1, after two fetches.\<close>

lemma two_level_descent:
  assumes tl: "two_level K t"
  shows "\<exists>c f b2 z. (c = 0 \<or> c = 1) \<and>
           findLeaf (bm t) (rootPage t) key = Some (c, b2) \<and>
           bm_inv b2 \<and> failbit (sm b2) \<and> pageTable b2 c = Some f \<and> pageTable b2 2 = Some 2 \<and>
           f < BUFFER_CAPACITY \<and> f \<noteq> 2 \<and> lru b2 = [f, 2, z] \<and> z \<noteq> f \<and> z \<noteq> 2 \<and>
           z < BUFFER_CAPACITY \<and>
           (\<forall>g. data (pool b2 ! g) = data (pool (bm t) ! g)) \<and>
           nextPageID b2 = nextPageID (bm t) \<and>
           (\<forall>p i. pageTable b2 p = Some i \<longrightarrow> p < nextPageID b2)"
proof -
  let ?bt = "bm t"
  let ?b0 = "?bt"
  let ?b1 = "touch 2 (bm_say (BufferHit 2) ?b0)"
  from tl have inv: "bm_inv ?bt" and fb: "failbit (sm ?bt)" and root: "rootPage t = 2"
    and pt2: "pageTable ?bt 2 = Some 2" and l3: "length (lru ?bt) = 3"
    and rok: "root_ok (data (pool ?bt ! 2))"
    and lv: "isLeaf (data (pool ?bt ! 0))" "isLeaf (data (pool ?bt ! 1))"
    and nodes: "\<And>g. g < BUFFER_CAPACITY \<Longrightarrow> node_ok K (data (pool ?bt ! g))"
    and ids: "\<And>p i. pageTable ?bt p = Some i \<Longrightarrow> p < nextPageID ?bt"
    unfolding two_level_def by blast+
  have in2: "2 \<in> set (lru ?bt)" using bm_invD(5)[OF inv pt2] .
  have pid2: "pageID (pool ?bt ! 2) = 2" using bm_invD(6)[OF inv pt2] .
  have f2: "fetchPage ?b0 2 = (2, ?b1)" by (rule fetchPage_hit) (simp add: pt2)
  have inv1: "bm_inv ?b1"
    using bm_inv_touch[of "bm_say (BufferHit 2) ?b0" 2] inv in2 by simp
  have k3: "length (keys (data (pool ?bt ! 2))) = 3"
    using nodes[of 2] by (simp add: node_ok_def BUFFER_CAPACITY_def)
  from root_scan[OF rok k3, of key] obtain c where c: "c = 0 \<or> c = 1"
    and sc: "findLeaf_scan (data (pool ?bt ! 2)) key 0 = Some c"
    and rd: "array_read (children (data (pool ?bt ! 2))) c = Some c" by blast
  have nl: "\<not> isLeaf (deref ?b1 2)" using rok by (simp add: deref_def root_ok_def)
  have sc': "findLeaf_scan (deref ?b1 2) key 0 = Some c" using sc by (simp add: deref_def)
  have rd': "array_read (children (deref ?b1 2)) c = Some c" using rd by (simp add: deref_def)
  have step: "findLeaf ?b0 2 key = findLeaf ?b1 c key"
    by (rule findLeaf_step[OF f2 nl sc' rd'])
  define f where "f = fst (fetchPage ?b1 c)"
  define b2 where "b2 = snd (fetchPage ?b1 c)"
  have fp: "fetchPage ?b1 c = (f, b2)" by (simp add: f_def b2_def)
  have inv2: "bm_inv b2" unfolding b2_def by (rule fetchPage_inv[OF inv1])
  have flt: "f < BUFFER_CAPACITY" unfolding f_def by (rule fetchPage_lt[OF inv1])
  have l1: "length (lru ?b1) = 3"
    using distinct_length_removeAll[OF bm_invD(2)[OF inv] in2] l3 by simp
  have fne: "f \<noteq> 2"
  proof (cases "pageTable ?bt c")
    case (Some idx)
    then have "f = idx" by (simp add: f_def fetchPage_frame)
    then have "pageID (pool ?bt ! f) = c" using bm_invD(6)[OF inv Some] by simp
    then show ?thesis using pid2 c by auto
  next
    case None
    have ne: "removeAll 2 (lru ?bt) \<noteq> []"
      using distinct_length_removeAll[OF bm_invD(2)[OF inv] in2] l3 by auto
    have "f = last (lru ?b1)" using None l1 by (simp add: f_def fetchPage_frame BUFFER_CAPACITY_def)
    then have "f \<in> set (removeAll 2 (lru ?bt))" using ne last_in_set[OF ne] by simp
    then show ?thesis by auto
  qed
  have fb1: "failbit (sm ?b1)" using fb by simp
  have fb2: "failbit (sm b2)" unfolding b2_def by (rule fetchPage_failed(1)[OF fb1])
  have dat: "data (pool b2 ! g) = data (pool ?bt ! g)" for g
    unfolding b2_def using fetchPage_failed(3)[OF fb1, of c g] by simp
  have fin: "f \<in> set (lru ?bt)"
    using flt bm_invD(3)[OF inv] l3 by (simp add: BUFFER_CAPACITY_def)
  have f01: "f = 0 \<or> f = 1" using flt fne by (simp add: BUFFER_CAPACITY_def) arith
  have leaf: "isLeaf (deref b2 f)"
    using f01 lv dat[of f] by (auto simp: deref_def)
  have fl: "findLeaf ?b1 c key = Some (c, b2)" by (rule findLeaf_leaf[OF fp leaf])
  have ptc: "pageTable b2 c = Some f" unfolding b2_def f_def by (rule fetchPage_table)
  have pt2': "pageTable b2 2 = Some 2"
    unfolding b2_def using fetchPage_keeps[OF inv1, of 2 2 c] pt2 fne by (simp add: f_def)
  have lru2: "lru b2 = f # removeAll f (2 # removeAll 2 (lru ?bt))"
    unfolding b2_def using fetchPage_lru[OF inv1, of c] by (simp add: f_def)
  from lru_after_root_and_leaf[OF bm_invD(2)[OF inv] l3 in2 fin fne]
  obtain z where z: "f # removeAll f (2 # removeAll 2 (lru ?bt)) = [f, 2, z]" "z \<noteq> f" "z \<noteq> 2"
    "z \<in> set (lru ?bt)" by blast
  have zlt: "z < BUFFER_CAPACITY" using bm_inv_frame_lt[OF inv z(4)] .
  have np: "nextPageID b2 = nextPageID ?bt" unfolding b2_def by simp
  have n2: "2 < nextPageID ?bt" using ids[OF pt2] .
  have ids2: "p < nextPageID b2" if "pageTable b2 p = Some i" for p i
  proof (cases "p = c")
    case True
    then show ?thesis using c n2 np by auto
  next
    case False
    have "pageTable ?b1 p = Some i"
      using fetchPage_new_table[of ?b1 c p i] that False by (simp add: b2_def)
    then show ?thesis using ids[of p i] np by simp
  qed
  have res: "findLeaf ?b0 (rootPage t) key = Some (c, b2)" using step fl root by simp
  have lru2': "lru b2 = [f, 2, z]" using lru2 z(1) by simp
  show ?thesis using c res inv2 fb2 ptc pt2' flt fne lru2' z(2,3) zlt dat np ids2 by blast
qed

lemma two_level_say: "two_level K t \<Longrightarrow> two_level K (t\<lparr>bm := bm_say e (bm t)\<rparr>)"
  by (simp add: two_level_def)

lemma two_level_findLeaf:
  assumes tl: "two_level K t"
  shows "\<exists>c f b2 z. (c = 0 \<or> c = 1) \<and>
           findLeaf (bm_say (UserInsert key) (bm t)) (rootPage t) key = Some (c, b2) \<and>
           bm_inv b2 \<and> failbit (sm b2) \<and> pageTable b2 c = Some f \<and> pageTable b2 2 = Some 2 \<and>
           f < BUFFER_CAPACITY \<and> f \<noteq> 2 \<and> lru b2 = [f, 2, z] \<and> z \<noteq> f \<and> z \<noteq> 2 \<and>
           z < BUFFER_CAPACITY \<and>
           (\<forall>g. data (pool b2 ! g) = data (pool (bm t) ! g)) \<and>
           nextPageID b2 = nextPageID (bm t) \<and>
           (\<forall>p i. pageTable b2 p = Some i \<longrightarrow> p < nextPageID b2)"
  using two_level_descent[OF two_level_say[OF tl, of "UserInsert key"], of key] by simp

lemma splitLeaf_effect_nodes:
  assumes inv: "bm_inv (bm t)"
    and res: "pageTable (bm t) old = Some fo"
    and nf: "alloc_frame (bm t) \<noteq> fo"
    and len: "length (keys (data (pool (bm t) ! fo))) = 3"
  shows "\<exists>b'. splitLeaf t old key =
             insertIntoParent (t\<lparr>bm := b'\<rparr>) old
               (sort (keys (data (pool (bm t) ! fo)) @ [key]) ! 2) (nextPageID (bm t)) \<and>
           bm_inv b' \<and> nextPageID b' = nextPageID (bm t) + 1 \<and>
           pageTable b' old = Some fo \<and> pageTable b' (nextPageID (bm t)) = Some (alloc_frame (bm t)) \<and>
           alloc_frame (bm t) < BUFFER_CAPACITY \<and>
           pool b' ! fo = (pool (bm t) ! fo)\<lparr>data := split_old (data (pool (bm t) ! fo)) key,
                                             dirty := True\<rparr> \<and>
           pool b' ! alloc_frame (bm t) =
             \<lparr>pageID = nextPageID (bm t), dirty = True,
              data = split_new (data (pool (bm t) ! fo)) key\<rparr> \<and>
           (\<forall>g. g \<noteq> fo \<and> g \<noteq> alloc_frame (bm t) \<longrightarrow> pool b' ! g = pool (bm t) ! g) \<and>
           (\<forall>q g. pageTable (bm t) q = Some g \<and> g \<noteq> alloc_frame (bm t) \<longrightarrow> pageTable b' q = Some g) \<and>
           (\<forall>q g. pageTable b' q = Some g \<and> q \<noteq> nextPageID (bm t) \<longrightarrow> pageTable (bm t) q = Some g) \<and>
           lru b' = alloc_frame (bm t) # fo #
                      removeAll (alloc_frame (bm t)) (removeAll fo (lru (bm t))) \<and>
           (failbit (sm (bm t)) \<longrightarrow> failbit (sm b'))"
  using splitLeaf_effect[OF inv res nf len, of key]
  by (simp add: split_old_def split_new_def)

lemma two_levelI:
  assumes "bm_inv b" "failbit (sm b)" "rootPage t = 2" "pageTable b 2 = Some 2"
    "length (lru b) = 3" "root_ok (data (pool b ! 2))"
    "isLeaf (data (pool b ! 0))" "isLeaf (data (pool b ! 1))"
    "\<And>g. g < BUFFER_CAPACITY \<Longrightarrow> node_ok K (data (pool b ! g))"
    "\<And>p i. pageTable b p = Some i \<Longrightarrow> p < nextPageID b"
  shows "two_level K (t\<lparr>bm := b\<rparr>)"
  unfolding two_level_def using assms by simp

lemma nodupI:
  assumes "\<And>g. g < BUFFER_CAPACITY \<Longrightarrow> distinct (leaf_keys (data (pool b ! g)))"
  shows "nodup (t\<lparr>bm := b\<rparr>)"
  unfolding nodup_def using assms by simp

lemma insert_two_level:
  assumes tl: "two_level K t"
  shows "\<exists>t'. insert_key t key = Some t' \<and> two_level (insert key K) t' \<and>
              (nodup t \<and> key \<notin> K \<longrightarrow> nodup t') \<and> links_kept (bm t) (bm t') \<and>
              (nextPageID (bm t') = nextPageID (bm t) \<or> split_below_root t key t')"
proof -
  from tl have root: "rootPage t = 2"
    and rok: "root_ok (data (pool (bm t) ! 2))"
    and lv: "isLeaf (data (pool (bm t) ! 0))" "isLeaf (data (pool (bm t) ! 1))"
    and nodes: "\<And>g. g < BUFFER_CAPACITY \<Longrightarrow> node_ok K (data (pool (bm t) ! g))"
    unfolding two_level_def by blast+
  from two_level_findLeaf[OF tl, of key]
  obtain c f b2 z where c: "c = 0 \<or> c = 1"
    and fl: "findLeaf (bm_say (UserInsert key) (bm t)) (rootPage t) key = Some (c, b2)"
    and inv2: "bm_inv b2" and fb2: "failbit (sm b2)"
    and ptc: "pageTable b2 c = Some f" and pt2: "pageTable b2 2 = Some 2"
    and flt: "f < BUFFER_CAPACITY" and fne: "f \<noteq> 2" and lru2: "lru b2 = [f, 2, z]"
    and zf: "z \<noteq> f" and z2: "z \<noteq> 2" and zlt: "z < BUFFER_CAPACITY"
    and dat: "\<And>g. data (pool b2 ! g) = data (pool (bm t) ! g)"
    and np: "nextPageID b2 = nextPageID (bm t)"
    and ids2: "\<And>p i. pageTable b2 p = Some i \<Longrightarrow> p < nextPageID b2"
    by blast
  let ?t2 = "t\<lparr>bm := b2\<rparr>"
  let ?d = "data (pool b2 ! f)"
  have ik: "insert_key t key = insertIntoLeaf ?t2 c key" by (simp add: insert_key_def fl)
  have f01: "f = 0 \<or> f = 1" using flt fne by (simp add: BUFFER_CAPACITY_def) arith
  have z01: "z = 0 \<or> z = 1" using zlt z2 by (simp add: BUFFER_CAPACITY_def) arith
  have frames: "g = f \<or> g = z \<or> g = 2" if "g < BUFFER_CAPACITY" for g
    using that f01 z01 zf by (simp add: BUFFER_CAPACITY_def) arith
  have dok: "node_ok K ?d" using nodes[OF flt] dat[of f] by simp
  have dleaf: "isLeaf ?d" using f01 lv dat[of f] by auto
  have nodes2: "node_ok (insert key K) (data (pool b2 ! g))" if "g < BUFFER_CAPACITY" for g
    using node_ok_mono[OF nodes[OF that], of "insert key K"] dat[of g] by auto
  have rok2: "root_ok (data (pool b2 ! 2))" using rok dat[of 2] by simp
  have pidlt: "pageID (pool b2 ! g) < nextPageID (bm t)" if "g < BUFFER_CAPACITY" for g
  proof -
    have "g \<in> set (lru b2)" using frames[OF that] lru2 by auto
    from ids2[OF bm_invD(7)[OF inv2 this]] show ?thesis using np by simp
  qed
  show ?thesis
  proof (cases "numKeys ?d < MAX_KEYS")
    case True
    note R = insertIntoLeaf_room[of ?t2 c f K key, simplified, OF inv2 ptc dok True]
    from R obtain b' n' where eq: "insertIntoLeaf ?t2 c key = Some (t\<lparr>bm := b'\<rparr>)"
      and inv': "bm_inv b'" and pt': "pageTable b' = pageTable b2"
      and lru': "lru b' = f # removeAll f (lru b2)" and np': "nextPageID b' = nextPageID b2"
      and pf: "pool b' ! f = (pool b2 ! f)\<lparr>data := n', dirty := True\<rparr>"
      and po: "\<And>g. g \<noteq> f \<Longrightarrow> pool b' ! g = pool b2 ! g"
      and nok: "node_ok (insert key K) n'" and nleaf: "isLeaf n' = isLeaf ?d"
      and pp: "parentPage n' = parentPage ?d" and nl: "nextLeaf n' = nextLeaf ?d"
      and ndis: "distinct (leaf_keys ?d) \<and> key \<notin> K \<longrightarrow> distinct (leaf_keys n')"
      and fb': "failbit (sm b') = failbit (sm b2)"
      by blast
    let ?t' = "t\<lparr>bm := b'\<rparr>"
    have lk: "links_kept (bm t) (bm ?t')"
    proof (rule links_keptI)
      fix g assume g: "g < BUFFER_CAPACITY"
      have "pageID (pool b' ! g) < nextPageID (bm t) \<and>
            parentPage (data (pool b' ! g)) = parentPage (data (pool (bm t) ! g)) \<and>
            nextLeaf (data (pool b' ! g)) = nextLeaf (data (pool (bm t) ! g))"
        using pf po[of g] pp nl dat[of g] pidlt[OF g] by (cases "g = f") simp_all
      then show "(pageID (pool (bm ?t') ! g) < nextPageID (bm t) \<and>
         parentPage (data (pool (bm ?t') ! g)) = parentPage (data (pool (bm t) ! g)) \<and>
         nextLeaf (data (pool (bm ?t') ! g)) = nextLeaf (data (pool (bm t) ! g))) \<or>
        (nextPageID (bm t) \<le> pageID (pool (bm ?t') ! g) \<and>
         parentPage (data (pool (bm ?t') ! g)) = 0 \<and> nextLeaf (data (pool (bm ?t') ! g)) = 0)"
        by simp
    qed
    have leaf': "isLeaf (data (pool b' ! g))" if "g = 0 \<or> g = 1" for g
    proof (cases "g = f")
      case True
      then show ?thesis using pf nleaf dleaf by simp
    next
      case False
      then show ?thesis using po[of g] that lv dat[of g] by auto
    qed
    have nodes': "node_ok (insert key K) (data (pool b' ! g))" if "g < BUFFER_CAPACITY" for g
      using nodes2[OF that] po[of g] pf nok by (cases "g = f") auto
    have l3: "length (lru b') = 3" using lru' lru2 fne zf by simp
    have r2: "root_ok (data (pool b' ! 2))" using po[of 2] fne rok2 by simp
    have ids': "p < nextPageID b'" if "pageTable b' p = Some i" for p i
      using ids2[of p i] that pt' np' by simp
    have p2: "pageTable b' 2 = Some 2" using pt' pt2 by simp
    have fbb: "failbit (sm b')" using fb' fb2 by simp
    have tl': "two_level (insert key K) ?t'"
      by (rule two_levelI[OF inv' fbb root p2 l3 r2 leaf'[of 0] leaf'[of 1] nodes' ids'])
         simp_all
    have nd: "nodup ?t'" if "nodup t" "key \<notin> K"
      unfolding nodup_def
    proof (intro allI impI)
      fix g assume g: "g < BUFFER_CAPACITY"
      have old: "distinct (leaf_keys (data (pool b2 ! g)))"
        using that(1) g dat[of g] by (simp add: nodup_def)
      show "distinct (leaf_keys (data (pool (bm ?t') ! g)))"
      proof (cases "g = f")
        case True
        then show ?thesis using pf ndis old that(2) by simp
      next
        case False
        then show ?thesis using po[of g] old by simp
      qed
    qed
    have same: "nextPageID (bm ?t') = nextPageID (bm t)" using np' np by simp
    show ?thesis using ik eq tl' nd lk same by auto
  next
    case False
    then have full: "numKeys ?d = MAX_KEYS" using dok by (simp add: node_ok_def)
    let ?b3 = "touch f (bm_say (BufferHit c) b2)"
    let ?t3 = "t\<lparr>bm := ?b3\<rparr>"
    have fin: "f \<in> set (lru b2)" using lru2 by simp
    have inv3: "bm_inv ?b3" using bm_inv_touch[of "bm_say (BufferHit c) b2" f] inv2 fin by simp
    have lru3: "lru ?b3 = [f, 2, z]" using lru2 fne zf by simp
    have none: "pageTable ?b3 (nextPageID ?b3) = None"
    proof (cases "pageTable b2 (nextPageID b2)")
      case None
      then show ?thesis by simp
    next
      case (Some i)
      from ids2[OF this] show ?thesis by simp
    qed
    have af: "alloc_frame ?b3 = z"
      using none lru3 by (simp add: alloc_frame_eq BUFFER_CAPACITY_def)
    have il: "insertIntoLeaf ?t2 c key = splitLeaf ?t3 c key"
      using insertIntoLeaf_full[of ?t2 c f key] ptc False by simp
    have len: "length (keys (data (pool (bm ?t3) ! f))) = 3" using dok by (simp add: node_ok_def)
    have d3: "data (pool (bm ?t3) ! f) = ?d" by simp
    have res3: "pageTable (bm ?t3) c = Some f" using ptc by simp
    have nf3: "alloc_frame (bm ?t3) \<noteq> f" using af zf by simp
    have inv3': "bm_inv (bm ?t3)" using inv3 by simp
    note S = splitLeaf_effect_nodes[OF inv3' res3 nf3 len, of key]
    have S': "\<exists>b'. splitLeaf ?t3 c key =
          insertIntoParent (t\<lparr>bm := b'\<rparr>) c (sort (keys ?d @ [key]) ! 2) (nextPageID b2) \<and>
      bm_inv b' \<and> nextPageID b' = nextPageID b2 + 1 \<and>
      pageTable b' c = Some f \<and> pageTable b' (nextPageID b2) = Some z \<and>
      z < BUFFER_CAPACITY \<and>
      pool b' ! f = (pool b2 ! f)\<lparr>data := split_old ?d key, dirty := True\<rparr> \<and>
      pool b' ! z = \<lparr>pageID = nextPageID b2, dirty = True, data = split_new ?d key\<rparr> \<and>
      (\<forall>g. g \<noteq> f \<and> g \<noteq> z \<longrightarrow> pool b' ! g = pool b2 ! g) \<and>
      (\<forall>q g. pageTable b2 q = Some g \<and> g \<noteq> z \<longrightarrow> pageTable b' q = Some g) \<and>
      (\<forall>q g. pageTable b' q = Some g \<and> q \<noteq> nextPageID b2 \<longrightarrow> pageTable b2 q = Some g) \<and>
      lru b' = [z, f, 2] \<and>
      failbit (sm b')"
      using S fb2 lru3 af fne zf z2 by simp
    from S'
    obtain b' where sp: "splitLeaf ?t3 c key =
          insertIntoParent (t\<lparr>bm := b'\<rparr>) c (sort (keys ?d @ [key]) ! 2) (nextPageID b2)"
      and inv': "bm_inv b'" and np': "nextPageID b' = nextPageID b2 + 1"
      and ptn: "pageTable b' (nextPageID b2) = Some z"
      and pf: "pool b' ! f = (pool b2 ! f)\<lparr>data := split_old ?d key, dirty := True\<rparr>"
      and pz: "pool b' ! z = \<lparr>pageID = nextPageID b2, dirty = True, data = split_new ?d key\<rparr>"
      and po: "\<And>g. g \<noteq> f \<Longrightarrow> g \<noteq> z \<Longrightarrow> pool b' ! g = pool b2 ! g"
      and keeps: "\<And>q g. pageTable b2 q = Some g \<Longrightarrow> g \<noteq> z \<Longrightarrow> pageTable b' q = Some g"
      and tb: "\<And>q g. pageTable b' q = Some g \<Longrightarrow> q \<noteq> nextPageID b2 \<Longrightarrow> pageTable b2 q = Some g"
      and lru': "lru b' = [z, f, 2]"
      and fb': "failbit (sm b')"
      by blast
    let ?t' = "t\<lparr>bm := b'\<rparr>"
    have c2: "c \<noteq> rootPage ?t'" using c root by auto
    have res: "insert_key t key = Some ?t'"
      using ik il sp insertIntoParent_def[of ?t' c] c2 by simp
    note sn = split_nodes_ok[OF dok full, of key]
    have leaf': "isLeaf (data (pool b' ! g))" if "g = 0 \<or> g = 1" for g
    proof -
      have "g = f \<or> g = z" using that f01 z01 zf by auto
      then show ?thesis using pf pz sn(3,4) dleaf by auto
    qed
    have nodes': "node_ok (insert key K) (data (pool b' ! g))" if "g < BUFFER_CAPACITY" for g
    proof -
      have n2: "node_ok (insert key K) (data (pool b' ! 2))"
        using po[of 2] fne z2 nodes2[of 2] by (simp add: BUFFER_CAPACITY_def)
      have nf: "node_ok (insert key K) (data (pool b' ! f))" using pf sn(1) by simp
      have nz: "node_ok (insert key K) (data (pool b' ! z))" using pz sn(2) by simp
      show ?thesis using frames[OF that] n2 nf nz by blast
    qed
    have ids': "p < nextPageID b'" if "pageTable b' p = Some i" for p i
    proof (cases "p = nextPageID b2")
      case True
      then show ?thesis using np' by simp
    next
      case False
      from ids2[OF tb[OF that False]] show ?thesis using np' by simp
    qed
    have l3: "length (lru b') = 3" using lru' fne zf z2 by simp
    have r2: "root_ok (data (pool b' ! 2))" using po[of 2] fne z2 rok2 by simp
    have p2: "pageTable b' 2 = Some 2" using keeps[OF pt2] z2 by simp
    have tl': "two_level (insert key K) ?t'"
      by (rule two_levelI[OF inv' fb' root p2 l3 r2 leaf'[of 0] leaf'[of 1] nodes' ids'])
         simp_all
    have nd: "nodup ?t'" if "nodup t" "key \<notin> K"
      unfolding nodup_def
    proof (intro allI impI)
      fix g assume g: "g < BUFFER_CAPACITY"
      have old: "distinct (leaf_keys (data (pool b2 ! h)))" if "h < BUFFER_CAPACITY" for h
        using \<open>nodup t\<close> that dat[of h] by (simp add: nodup_def)
      have dd: "distinct (leaf_keys (split_old ?d key)) \<and> distinct (leaf_keys (split_new ?d key))"
        using sn(6) old[OF flt] that(2) by blast
      have n2: "distinct (leaf_keys (data (pool b' ! 2)))"
        using po[of 2] fne z2 old[of 2] by (simp add: BUFFER_CAPACITY_def)
      have nf: "distinct (leaf_keys (data (pool b' ! f)))" using pf dd by simp
      have nz: "distinct (leaf_keys (data (pool b' ! z)))" using pz dd by simp
      have "distinct (leaf_keys (data (pool b' ! g)))" using frames[OF g] n2 nf nz by blast
      then show "distinct (leaf_keys (data (pool (bm ?t') ! g)))" by simp
    qed
    have lk: "links_kept (bm t) (bm ?t')"
    proof (rule links_keptI)
      fix g assume g: "g < BUFFER_CAPACITY"
      have kf: "pageID (pool b' ! f) < nextPageID (bm t) \<and>
            parentPage (data (pool b' ! f)) = parentPage (data (pool (bm t) ! f)) \<and>
            nextLeaf (data (pool b' ! f)) = nextLeaf (data (pool (bm t) ! f))"
        using pf dat[of f] pidlt[OF flt] by (simp add: split_links)
      have k2: "pageID (pool b' ! 2) < nextPageID (bm t) \<and>
            parentPage (data (pool b' ! 2)) = parentPage (data (pool (bm t) ! 2)) \<and>
            nextLeaf (data (pool b' ! 2)) = nextLeaf (data (pool (bm t) ! 2))"
        using po[of 2] fne z2 dat[of 2] pidlt[of 2] by (simp add: BUFFER_CAPACITY_def)
      have kz: "nextPageID (bm t) \<le> pageID (pool b' ! z) \<and>
         parentPage (data (pool b' ! z)) = 0 \<and> nextLeaf (data (pool b' ! z)) = 0"
        using pz np by (simp add: split_links)
      have "(pageID (pool b' ! g) < nextPageID (bm t) \<and>
         parentPage (data (pool b' ! g)) = parentPage (data (pool (bm t) ! g)) \<and>
         nextLeaf (data (pool b' ! g)) = nextLeaf (data (pool (bm t) ! g))) \<or>
        (nextPageID (bm t) \<le> pageID (pool b' ! g) \<and>
         parentPage (data (pool b' ! g)) = 0 \<and> nextLeaf (data (pool b' ! g)) = 0)"
        using frames[OF g] kf k2 kz by blast
      then show "(pageID (pool (bm ?t') ! g) < nextPageID (bm t) \<and>
         parentPage (data (pool (bm ?t') ! g)) = parentPage (data (pool (bm t) ! g)) \<and>
         nextLeaf (data (pool (bm ?t') ! g)) = nextLeaf (data (pool (bm t) ! g))) \<or>
        (nextPageID (bm t) \<le> pageID (pool (bm ?t') ! g) \<and>
         parentPage (data (pool (bm ?t') ! g)) = 0 \<and> nextLeaf (data (pool (bm ?t') ! g)) = 0)"
        by simp
    qed
    have len3: "length (keys ?d) = 3" using dok by (simp add: node_ok_def)
    have hdk: "hd (leaf_keys (data (pool b' ! z))) = sort (keys ?d @ [key]) ! 2"
      using pz split_leaf_keys(2)[OF len3, of key] len3 by (simp add: hd_drop_conv_nth)
    have lfz: "isLeaf (data (pool b' ! z))" using pz sn(3) by simp
    have d2: "data (pool b' ! 2) = data (pool (bm t) ! 2)" using po[of 2] fne z2 dat[of 2] by simp
    have call: "insert_key t key =
        insertIntoParent ?t' c (sort (keys ?d @ [key]) ! 2) (nextPageID (bm t))"
      using ik il sp np by simp
    have sb: "split_below_root t key ?t'"
      unfolding split_below_root_def
    proof (intro exI conjI)
      show "findLeaf (bm_say (UserInsert key) (bm t)) (rootPage t) key = Some (c, b2)" by (rule fl)
      show "c \<noteq> rootPage ?t'" by (rule c2)
      show "insert_key t key =
        insertIntoParent ?t' c (sort (keys ?d @ [key]) ! 2) (nextPageID (bm t))" by (rule call)
      show "nextPageID (bm ?t') = nextPageID (bm t) + 1" using np' np by simp
      show "pageTable (bm ?t') (nextPageID (bm t)) = Some z" using ptn np by simp
      show "isLeaf (data (pool (bm ?t') ! z))" using lfz by simp
      show "hd (leaf_keys (data (pool (bm ?t') ! z))) = sort (keys ?d @ [key]) ! 2"
        using hdk by simp
      show "data (pool (bm ?t') ! 2) = data (pool (bm t) ! 2)" using d2 by simp
    qed
    show ?thesis using res tl' nd lk sb by auto
  qed
qed

lemma single_leafI:
  assumes "bm_inv b" "failbit (sm b)" "rootPage t = 0" "nextPageID b = 1" "lru b = [0]"
    "pageID (pool b ! 0) = 0" "isLeaf (data (pool b ! 0))"
    "\<And>g. g < BUFFER_CAPACITY \<Longrightarrow> node_ok K (data (pool b ! g))"
  shows "single_leaf K (t\<lparr>bm := b\<rparr>)"
  unfolding single_leaf_def using assms by simp

lemma two_level_rootI:
  assumes "bm_inv b" "failbit (sm b)" "pageTable b 2 = Some 2"
    "length (lru b) = 3" "root_ok (data (pool b ! 2))"
    "isLeaf (data (pool b ! 0))" "isLeaf (data (pool b ! 1))"
    "\<And>g. g < BUFFER_CAPACITY \<Longrightarrow> node_ok K (data (pool b ! g))"
    "\<And>p i. pageTable b p = Some i \<Longrightarrow> p < nextPageID b"
  shows "two_level K \<lparr>bm = b, rootPage = 2\<rparr>"
  unfolding two_level_def using assms by simp

lemma nodup_rootI:
  assumes "\<And>g. g < BUFFER_CAPACITY \<Longrightarrow> distinct (leaf_keys (data (pool b ! g)))"
  shows "nodup \<lparr>bm = b, rootPage = r\<rparr>"
  unfolding nodup_def using assms by simp

lemma new_root_node_ok:
  "root_ok (new_root_node 0 k 1)" "k \<in> K \<Longrightarrow> node_ok K (new_root_node 0 k 1)"
  "distinct (leaf_keys (new_root_node 0 k 1))"
  "parentPage (new_root_node l k r) = 0" "nextLeaf (new_root_node l k r) = 0"
  by (simp_all add: root_ok_def node_ok_def new_root_node_def zero_page_def leaf_keys_def
        MAX_KEYS_def)

lemma frames3: "g < BUFFER_CAPACITY \<Longrightarrow> g = 0 \<or> g = 1 \<or> g = 2"
  by (simp add: BUFFER_CAPACITY_def) arith

lemma single_leaf_table:
  assumes inv: "bm_inv b" and l: "lru b = [0]" and p: "pageID (pool b ! 0) = 0"
  shows "pageTable b 0 = Some 0" and "q \<noteq> 0 \<Longrightarrow> pageTable b q = None"
proof -
  show "pageTable b 0 = Some 0" using bm_invD(7)[OF inv, of 0] l p by simp
  show "pageTable b q = None" if "q \<noteq> 0"
  proof (cases "pageTable b q")
    case None
    then show ?thesis .
  next
    case (Some i)
    have "i = 0" using bm_invD(5)[OF inv Some] l by simp
    then show ?thesis using bm_invD(6)[OF inv Some] p that by simp
  qed
qed

lemma insert_single_room:
  assumes sl: "single_leaf K t" and room: "numKeys (data (pool (bm t) ! 0)) < MAX_KEYS"
  shows "\<exists>t'. insert_key t key = Some t' \<and> single_leaf (insert key K) t' \<and>
              (nodup t \<and> key \<notin> K \<longrightarrow> nodup t') \<and> links_kept (bm t) (bm t')"
proof -
  from sl have inv: "bm_inv (bm t)" and fb: "failbit (sm (bm t))" and root: "rootPage t = 0"
    and np: "nextPageID (bm t) = 1" and lru0: "lru (bm t) = [0]"
    and pid0: "pageID (pool (bm t) ! 0) = 0" and leaf0: "isLeaf (data (pool (bm t) ! 0))"
    and nodes: "\<And>g. g < BUFFER_CAPACITY \<Longrightarrow> node_ok K (data (pool (bm t) ! g))"
    unfolding single_leaf_def by blast+
  note tab = single_leaf_table[OF inv lru0 pid0]
  define b2 where "b2 = touch 0 (bm_say (BufferHit 0) (bm_say (UserInsert key) (bm t)))"
  have fp: "fetchPage (bm_say (UserInsert key) (bm t)) 0 = (0, b2)"
    unfolding b2_def by (rule fetchPage_hit) (simp add: tab(1))
  have fl: "findLeaf (bm_say (UserInsert key) (bm t)) (rootPage t) key = Some (0, b2)"
    unfolding root by (rule findLeaf_leaf[OF fp]) (simp add: b2_def deref_def leaf0)
  have inv2: "bm_inv b2"
    unfolding b2_def by (rule bm_inv_touch) (simp_all add: inv lru0)
  have b2s: "lru b2 = [0]" "pool b2 = pool (bm t)" "pageTable b2 = pageTable (bm t)"
    "nextPageID b2 = 1" "failbit (sm b2)"
    using lru0 np fb by (simp_all add: b2_def)
  let ?t2 = "t\<lparr>bm := b2\<rparr>"
  let ?d = "data (pool b2 ! 0)"
  have ik: "insert_key t key = insertIntoLeaf ?t2 0 key" by (simp add: insert_key_def fl)
  have pt0: "pageTable b2 0 = Some 0" using tab(1) b2s by simp
  have dok: "node_ok K ?d" using nodes[of 0] b2s by (simp add: BUFFER_CAPACITY_def)
  have room2: "numKeys ?d < MAX_KEYS" using room b2s by simp
  note R = insertIntoLeaf_room[of ?t2 0 0 K key, simplified, OF inv2 pt0 dok room2]
  from R obtain b' n' where eq: "insertIntoLeaf ?t2 0 key = Some (t\<lparr>bm := b'\<rparr>)"
    and inv': "bm_inv b'" and pt': "pageTable b' = pageTable b2"
    and lru': "lru b' = 0 # removeAll 0 (lru b2)" and np': "nextPageID b' = nextPageID b2"
    and pf: "pool b' ! 0 = (pool b2 ! 0)\<lparr>data := n', dirty := True\<rparr>"
    and po: "\<And>g. g \<noteq> 0 \<Longrightarrow> pool b' ! g = pool b2 ! g"
    and nok: "node_ok (insert key K) n'" and nleaf: "isLeaf n' = isLeaf ?d"
    and pp: "parentPage n' = parentPage ?d" and nl: "nextLeaf n' = nextLeaf ?d"
    and ndis: "distinct (leaf_keys ?d) \<and> key \<notin> K \<longrightarrow> distinct (leaf_keys n')"
    and fb': "failbit (sm b') = failbit (sm b2)"
    by blast
  let ?t' = "t\<lparr>bm := b'\<rparr>"
  have fbb: "failbit (sm b')" using fb' b2s by simp
  have n1: "nextPageID b' = 1" using np' b2s by simp
  have l1: "lru b' = [0]" using lru' b2s by simp
  have p1: "pageID (pool b' ! 0) = 0" using pf pid0 b2s by simp
  have lf: "isLeaf (data (pool b' ! 0))" using pf nleaf leaf0 b2s by simp
  have nodes': "node_ok (insert key K) (data (pool b' ! g))" if "g < BUFFER_CAPACITY" for g
  proof (cases "g = 0")
    case True
    then show ?thesis using pf nok by simp
  next
    case False
    have "node_ok (insert key K) (data (pool (bm t) ! g))"
      by (rule node_ok_mono[OF nodes[OF that]]) auto
    then show ?thesis using po[OF False] b2s by simp
  qed
  have sl': "single_leaf (insert key K) ?t'"
    by (rule single_leafI[OF inv' fbb root n1 l1 p1 lf nodes'])
  have nd: "nodup ?t'" if "nodup t" "key \<notin> K"
  proof (rule nodupI)
    fix g assume g: "g < BUFFER_CAPACITY"
    have old: "distinct (leaf_keys (data (pool b2 ! g)))"
      using that(1) g b2s by (simp add: nodup_def)
    show "distinct (leaf_keys (data (pool b' ! g)))"
    proof (cases "g = 0")
      case True
      then show ?thesis using pf ndis old that(2) by simp
    next
      case False
      then show ?thesis using po[of g] old by simp
    qed
  qed
  have lk: "links_kept (bm t) (bm ?t')"
  proof (rule links_keptI)
    fix g assume g: "g < BUFFER_CAPACITY"
    have pl: "pageID (pool (bm t) ! g) < 1"
    proof (cases "g = 0")
      case True
      then show ?thesis using pid0 by simp
    next
      case False
      then have "g \<notin> set (lru (bm t))" using lru0 by simp
      from bm_invD(8)[OF inv g this] show ?thesis by simp
    qed
    have "pageID (pool b' ! g) < nextPageID (bm t) \<and>
          parentPage (data (pool b' ! g)) = parentPage (data (pool (bm t) ! g)) \<and>
          nextLeaf (data (pool b' ! g)) = nextLeaf (data (pool (bm t) ! g))"
      using pf po[of g] pp nl b2s pl np by (cases "g = 0") simp_all
    then show "(pageID (pool (bm ?t') ! g) < nextPageID (bm t) \<and>
       parentPage (data (pool (bm ?t') ! g)) = parentPage (data (pool (bm t) ! g)) \<and>
       nextLeaf (data (pool (bm ?t') ! g)) = nextLeaf (data (pool (bm t) ! g))) \<or>
      (nextPageID (bm t) \<le> pageID (pool (bm ?t') ! g) \<and>
       parentPage (data (pool (bm ?t') ! g)) = 0 \<and> nextLeaf (data (pool (bm ?t') ! g)) = 0)"
      by simp
  qed
  show ?thesis using ik eq sl' nd lk by simp
qed

lemma insert_single_full:
  assumes sl: "single_leaf K t" and full: "\<not> numKeys (data (pool (bm t) ! 0)) < MAX_KEYS"
  shows "\<exists>t'. insert_key t key = Some t' \<and> two_level (insert key K) t' \<and>
              (nodup t \<and> key \<notin> K \<longrightarrow> nodup t') \<and> links_kept (bm t) (bm t')"
proof -
  from sl have inv: "bm_inv (bm t)" and fb: "failbit (sm (bm t))" and root: "rootPage t = 0"
    and np: "nextPageID (bm t) = 1" and lru0: "lru (bm t) = [0]"
    and pid0: "pageID (pool (bm t) ! 0) = 0" and leaf0: "isLeaf (data (pool (bm t) ! 0))"
    and nodes: "\<And>g. g < BUFFER_CAPACITY \<Longrightarrow> node_ok K (data (pool (bm t) ! g))"
    unfolding single_leaf_def by blast+
  note tab = single_leaf_table[OF inv lru0 pid0]
  define b2 where "b2 = touch 0 (bm_say (BufferHit 0) (bm_say (UserInsert key) (bm t)))"
  have fp: "fetchPage (bm_say (UserInsert key) (bm t)) 0 = (0, b2)"
    unfolding b2_def by (rule fetchPage_hit) (simp add: tab(1))
  have fl: "findLeaf (bm_say (UserInsert key) (bm t)) (rootPage t) key = Some (0, b2)"
    unfolding root by (rule findLeaf_leaf[OF fp]) (simp add: b2_def deref_def leaf0)
  have inv2: "bm_inv b2"
    unfolding b2_def by (rule bm_inv_touch) (simp_all add: inv lru0)
  have b2s: "lru b2 = [0]" "pool b2 = pool (bm t)" "pageTable b2 = pageTable (bm t)"
    "nextPageID b2 = 1" "failbit (sm b2)"
    using lru0 np fb by (simp_all add: b2_def)
  let ?d = "data (pool (bm t) ! 0)"
  have ik: "insert_key t key = insertIntoLeaf (t\<lparr>bm := b2\<rparr>) 0 key"
    by (simp add: insert_key_def fl)
  have dok: "node_ok K ?d" using nodes[of 0] by (simp add: BUFFER_CAPACITY_def)
  have nk: "numKeys ?d = MAX_KEYS" using full dok by (simp add: node_ok_def)
  define b3 where "b3 = touch 0 (bm_say (BufferHit 0) b2)"
  have il: "insertIntoLeaf (t\<lparr>bm := b2\<rparr>) 0 key = splitLeaf (t\<lparr>bm := b3\<rparr>) 0 key"
    unfolding b3_def using insertIntoLeaf_full[of "t\<lparr>bm := b2\<rparr>" 0 0 key] tab(1) full b2s
    by simp
  have inv3: "bm_inv b3"
    unfolding b3_def by (rule bm_inv_touch) (simp_all add: inv2 b2s)
  have b3s: "lru b3 = [0]" "pool b3 = pool (bm t)" "pageTable b3 = pageTable (bm t)"
    "nextPageID b3 = 1" "failbit (sm b3)"
    using b2s by (simp_all add: b3_def)
  have af3: "alloc_frame b3 = 1"
    using tab(2)[of 1] b3s by (simp add: alloc_frame_eq BUFFER_CAPACITY_def)
  have inv3': "bm_inv (bm (t\<lparr>bm := b3\<rparr>))" using inv3 by simp
  have res3: "pageTable (bm (t\<lparr>bm := b3\<rparr>)) 0 = Some 0" using tab(1) b3s by simp
  have nf3: "alloc_frame (bm (t\<lparr>bm := b3\<rparr>)) \<noteq> 0" using af3 by simp
  have len3: "length (keys (data (pool (bm (t\<lparr>bm := b3\<rparr>)) ! 0))) = 3"
    using dok b3s by (simp add: node_ok_def)
  note S = splitLeaf_effect_nodes[OF inv3' res3 nf3 len3, of key]
  define k where "k = sort (keys ?d @ [key]) ! 2"
  have S': "\<exists>b'. splitLeaf (t\<lparr>bm := b3\<rparr>) 0 key = insertIntoParent (t\<lparr>bm := b'\<rparr>) 0 k 1 \<and>
      bm_inv b' \<and> nextPageID b' = 2 \<and>
      pageTable b' 0 = Some 0 \<and> pageTable b' 1 = Some 1 \<and>
      1 < BUFFER_CAPACITY \<and>
      pool b' ! 0 = (pool (bm t) ! 0)\<lparr>data := split_old ?d key, dirty := True\<rparr> \<and>
      pool b' ! 1 = \<lparr>pageID = 1, dirty = True, data = split_new ?d key\<rparr> \<and>
      (\<forall>g. g \<noteq> 0 \<and> g \<noteq> 1 \<longrightarrow> pool b' ! g = pool (bm t) ! g) \<and>
      (\<forall>q g. pageTable (bm t) q = Some g \<and> g \<noteq> 1 \<longrightarrow> pageTable b' q = Some g) \<and>
      (\<forall>q g. pageTable b' q = Some g \<and> q \<noteq> 1 \<longrightarrow> pageTable (bm t) q = Some g) \<and>
      lru b' = [1, 0] \<and>
      failbit (sm b')"
    using S b3s af3 by (simp add: k_def)
  from S' obtain b' where sp: "splitLeaf (t\<lparr>bm := b3\<rparr>) 0 key = insertIntoParent (t\<lparr>bm := b'\<rparr>) 0 k 1"
    and inv': "bm_inv b'" and np': "nextPageID b' = 2"
    and pf0: "pool b' ! 0 = (pool (bm t) ! 0)\<lparr>data := split_old ?d key, dirty := True\<rparr>"
    and pf1: "pool b' ! 1 = \<lparr>pageID = 1, dirty = True, data = split_new ?d key\<rparr>"
    and po: "\<And>g. g \<noteq> 0 \<Longrightarrow> g \<noteq> 1 \<Longrightarrow> pool b' ! g = pool (bm t) ! g"
    and tb: "\<And>q g. pageTable b' q = Some g \<Longrightarrow> q \<noteq> 1 \<Longrightarrow> pageTable (bm t) q = Some g"
    and lru': "lru b' = [1, 0]"
    and fb': "failbit (sm b')"
    by blast
  have none2: "pageTable b' 2 = None"
  proof (cases "pageTable b' 2")
    case None
    then show ?thesis .
  next
    case (Some g)
    from tb[OF Some] tab(2)[of 2] show ?thesis by simp
  qed
  have af: "alloc_frame b' = 2"
    using none2 np' lru' by (simp add: alloc_frame_eq BUFFER_CAPACITY_def)
  define b5 where "b5 = snd (allocatePage b')"
  have inv5: "bm_inv b5" unfolding b5_def by (rule allocatePage_inv[OF inv'])
  have pt5: "pageTable b5 2 = Some 2"
    using allocatePage_table[of b'] np' af by (simp add: b5_def)
  have p52: "pool b5 ! 2 = \<lparr>pageID = 2, dirty = True, data = zero_page\<rparr>"
    using allocatePage_frame[OF inv'] np' af by (simp add: b5_def)
  have p5o: "pool b5 ! g = pool b' ! g" if "g \<noteq> 2" for g
    using allocatePage_other_frames[of g b'] that af by (simp add: b5_def)
  have lru5: "lru b5 = [2, 1, 0]"
    using allocatePage_lru[OF inv'] af lru' by (simp add: b5_def)
  have fb5: "failbit (sm b5)" unfolding b5_def by (rule allocatePage_failed[OF fb'])
  have np5: "nextPageID b5 = 3" using np' by (simp add: b5_def)
  have len5: "length (pool b5) = 3" using bm_invD(1)[OF inv5] by (simp add: BUFFER_CAPACITY_def)
  define b6 where "b6 = touch 2 (bm_say (BufferHit 2) b5)"
  have inv6: "bm_inv b6"
    unfolding b6_def by (rule bm_inv_touch) (simp_all add: inv5 lru5)
  have b6s: "lru b6 = [2, 1, 0]" "pool b6 = pool b5" "pageTable b6 = pageTable b5"
    "nextPageID b6 = 3" "failbit (sm b6)"
    using lru5 np5 fb5 by (simp_all add: b6_def)
  define bR where "bR = bm_say (NewRootCreated 2) (store 2 (\<lambda>_. new_root_node 0 k 1) b6)"
  have ip: "insertIntoParent (t\<lparr>bm := b'\<rparr>) 0 k 1 = Some \<lparr>bm = bR, rootPage = 2\<rparr>"
    using insertIntoParent_root[of "t\<lparr>bm := b'\<rparr>" k 1] inv' root np' af
    by (simp add: bR_def b6_def b5_def)
  have res: "insert_key t key = Some \<lparr>bm = bR, rootPage = 2\<rparr>"
    using ik il sp ip by simp
  have invR: "bm_inv bR" using inv6 by (simp add: bR_def)
  have fbR: "failbit (sm bR)" using b6s by (simp add: bR_def)
  have ptR: "pageTable bR = pageTable b5" using b6s by (simp add: bR_def)
  have lruR: "lru bR = [2, 1, 0]" using b6s by (simp add: bR_def)
  have npR: "nextPageID bR = 3" using b6s by (simp add: bR_def)
  have pR2: "data (pool bR ! 2) = new_root_node 0 k 1"
    using len5 b6s by (simp add: bR_def store_data)
  have pR0: "data (pool bR ! 0) = split_old ?d key"
    using len5 b6s p5o[of 0] pf0 by (simp add: bR_def store_data)
  have pR1: "data (pool bR ! 1) = split_new ?d key"
    using len5 b6s p5o[of 1] pf1 by (simp add: bR_def store_data)
  note sn = split_nodes_ok[OF dok nk, of key]
  have kin: "k \<in> insert key K" using sn(5) by (simp add: k_def)
  have ids: "p < nextPageID bR" if "pageTable bR p = Some i" for p i
  proof -
    have s5: "pageTable b5 p = Some i" using that ptR by simp
    have i: "i = 0 \<or> i = 1 \<or> i = 2" using bm_invD(5)[OF inv5 s5] lru5 by auto
    have pid: "pageID (pool b5 ! i) = p" using bm_invD(6)[OF inv5 s5] .
    have "pageID (pool b5 ! 0) = 0" using p5o[of 0] pf0 pid0 by simp
    moreover have "pageID (pool b5 ! 1) = 1" using p5o[of 1] pf1 by simp
    moreover have "pageID (pool b5 ! 2) = 2" using p52 by simp
    ultimately have "p = 0 \<or> p = 1 \<or> p = 2" using i pid by auto
    then show ?thesis using npR by auto
  qed
  have nodesR: "node_ok (insert key K) (data (pool bR ! g))" if "g < BUFFER_CAPACITY" for g
    using frames3[OF that] pR0 pR1 pR2 sn(1,2) new_root_node_ok(2)[OF kin] by auto
  have l0: "isLeaf (data (pool bR ! 0))" using pR0 sn(4) leaf0 by simp
  have l1: "isLeaf (data (pool bR ! 1))" using pR1 sn(3) by simp
  have r2: "root_ok (data (pool bR ! 2))" using pR2 new_root_node_ok(1) by simp
  have p2: "pageTable bR 2 = Some 2" using ptR pt5 by simp
  have l3: "length (lru bR) = 3" using lruR by simp
  have tl: "two_level (insert key K) \<lparr>bm = bR, rootPage = 2\<rparr>"
    by (rule two_level_rootI[OF invR fbR p2 l3 r2 l0 l1 nodesR ids])
  have nd: "nodup \<lparr>bm = bR, rootPage = 2\<rparr>" if "nodup t" "key \<notin> K"
  proof (rule nodup_rootI)
    fix g assume g: "g < BUFFER_CAPACITY"
    have "distinct (leaf_keys ?d)" using that(1) by (simp add: nodup_def BUFFER_CAPACITY_def)
    from sn(6)[OF this that(2)]
    show "distinct (leaf_keys (data (pool bR ! g)))"
      using frames3[OF g] pR0 pR1 pR2 new_root_node_ok(3)[of k] by auto
  qed
  have id1: "pageID (pool bR ! 1) = 1" using p5o[of 1] pf1 b6s by (simp add: bR_def)
  have id2: "pageID (pool bR ! 2) = 2" using p52 b6s by (simp add: bR_def)
  have lk: "links_kept (bm t) bR"
  proof (rule links_keptI)
    fix g assume g: "g < BUFFER_CAPACITY"
    have id0: "pageID (pool bR ! 0) = 0" using p5o[of 0] pf0 pid0 b6s by (simp add: bR_def)
    have k0: "pageID (pool bR ! 0) < nextPageID (bm t) \<and>
          parentPage (data (pool bR ! 0)) = parentPage (data (pool (bm t) ! 0)) \<and>
          nextLeaf (data (pool bR ! 0)) = nextLeaf (data (pool (bm t) ! 0))"
      using pR0 id0 np by (simp add: split_links)
    have k1: "nextPageID (bm t) \<le> pageID (pool bR ! 1) \<and>
       parentPage (data (pool bR ! 1)) = 0 \<and> nextLeaf (data (pool bR ! 1)) = 0"
      using pR1 id1 np by (simp add: split_links)
    have k2: "nextPageID (bm t) \<le> pageID (pool bR ! 2) \<and>
       parentPage (data (pool bR ! 2)) = 0 \<and> nextLeaf (data (pool bR ! 2)) = 0"
      using pR2 id2 np by (simp add: new_root_node_ok)
    show "(pageID (pool bR ! g) < nextPageID (bm t) \<and>
       parentPage (data (pool bR ! g)) = parentPage (data (pool (bm t) ! g)) \<and>
       nextLeaf (data (pool bR ! g)) = nextLeaf (data (pool (bm t) ! g))) \<or>
      (nextPageID (bm t) \<le> pageID (pool bR ! g) \<and>
       parentPage (data (pool bR ! g)) = 0 \<and> nextLeaf (data (pool bR ! g)) = 0)"
      using frames3[OF g] k0 k1 k2 by blast
  qed
  show ?thesis using res tl nd lk by simp
qed

lemma fresh_single: "single_leaf {} (fresh_tree name)"
proof -
  define b0 where "b0 = BufferManager_init (StorageManager_init name)"
  define b1 where "b1 = snd (allocatePage b0)"
  define b2 where "b2 = touch 0 (bm_say (BufferHit 0) b1)"
  define bR where "bR = store 0 (\<lambda>n. n\<lparr>isLeaf := True, numKeys := 0, parentPage := - 1\<rparr>) b2"
  have inv0: "bm_inv b0" unfolding b0_def by (rule bm_inv_init)
  have b0s: "nextPageID b0 = 0" "lru b0 = []" "pageTable b0 = Map.empty"
    by (simp_all add: b0_def BufferManager_init_def)
  have p0: "data (pool b0 ! g) = zero_page" if "g < BUFFER_CAPACITY" for g
    using that by (simp add: b0_def BufferManager_init_def)
  have af: "alloc_frame b0 = 0" using b0s by (simp add: alloc_frame_eq BUFFER_CAPACITY_def)
  have inv1: "bm_inv b1" unfolding b1_def by (rule allocatePage_inv[OF inv0])
  have pt1: "pageTable b1 0 = Some 0" using allocatePage_table[of b0] b0s af by (simp add: b1_def)
  have p10: "pool b1 ! 0 = \<lparr>pageID = 0, dirty = True, data = zero_page\<rparr>"
    using allocatePage_frame[OF inv0] b0s af by (simp add: b1_def)
  have p1o: "pool b1 ! g = pool b0 ! g" if "g \<noteq> 0" for g
    using allocatePage_other_frames[of g b0] that af by (simp add: b1_def)
  have lru1: "lru b1 = [0]" using allocatePage_lru[OF inv0] af b0s by (simp add: b1_def)
  have np1: "nextPageID b1 = 1" using b0s by (simp add: b1_def)
  have fb1: "failbit (sm b1)"
    by (simp add: b1_def b0_def allocatePage_eq BufferManager_init_def StorageManager_init_def
          fetchPage_def evict_def readDisk_def Let_def markDirty_def bm_say_def say_def
          BUFFER_CAPACITY_def store_def touch_def)
  have len1: "length (pool b1) = 3" using bm_invD(1)[OF inv1] by (simp add: BUFFER_CAPACITY_def)
  have fr: "fresh_tree name = \<lparr>bm = bR, rootPage = 0\<rparr>"
    using fetchPage_hit[OF pt1] b0s
    by (simp add: fresh_tree_def BPlusTree_init_def case_prod_beta b0_def[symmetric]
          b1_def[symmetric] b2_def[symmetric] bR_def)
  have inv2: "bm_inv b2" unfolding b2_def by (rule bm_inv_touch) (simp_all add: inv1 lru1)
  have invR: "bm_inv bR" using inv2 by (simp add: bR_def)
  have bRs: "lru bR = [0]" "nextPageID bR = 1" "failbit (sm bR)" "pageID (pool bR ! 0) = 0"
    using lru1 np1 fb1 p10 by (simp_all add: bR_def b2_def)
  have d0: "data (pool bR ! 0) = zero_page\<lparr>isLeaf := True, numKeys := 0, parentPage := - 1\<rparr>"
    using len1 p10 by (simp add: bR_def b2_def store_data)
  have dg: "data (pool bR ! g) = zero_page" if "g \<noteq> 0" "g < BUFFER_CAPACITY" for g
    using len1 p1o[OF that(1)] p0[OF that(2)] that(1) by (simp add: bR_def b2_def store_data)
  have nodes: "node_ok {} (data (pool bR ! g))" if "g < BUFFER_CAPACITY" for g
  proof (cases "g = 0")
    case True
    then show ?thesis using d0
      by (simp add: node_ok_def zero_page_def leaf_keys_def MAX_KEYS_def)
  next
    case False
    then show ?thesis using dg[OF False that] node_ok_zero by simp
  qed
  have lf: "isLeaf (data (pool bR ! 0))" using d0 by simp
  show ?thesis unfolding fr single_leaf_def using invR bRs lf nodes by simp
qed

lemma fresh_nodup: "nodup (fresh_tree name)"
proof -
  have "node_ok {} (data (pool (bm (fresh_tree name)) ! g))" if "g < BUFFER_CAPACITY" for g
    using fresh_single[of name] that by (simp add: single_leaf_def)
  then have "leaf_keys (data (pool (bm (fresh_tree name)) ! g)) = []" if "g < BUFFER_CAPACITY" for g
    using that by (simp add: node_ok_def)
  then show ?thesis by (simp add: nodup_def)
qed

lemma insert_key_inv:
  assumes "tree_inv K t"
  shows "\<exists>t'. insert_key t key = Some t' \<and> tree_inv (insert key K) t' \<and>
              (nodup t \<and> key \<notin> K \<longrightarrow> nodup t') \<and>
              (two_level K t \<longrightarrow> two_level (insert key K) t') \<and>
              (single_leaf K t \<longrightarrow> single_leaf (insert key K) t' \<or> rootPage t' \<noteq> rootPage t) \<and>
              links_kept (bm t) (bm t') \<and>
              (two_level K t \<longrightarrow>
                 nextPageID (bm t') = nextPageID (bm t) \<or> split_below_root t key t')"
proof (cases "two_level K t")
  case True
  then have ns: "\<not> single_leaf K t" by (simp add: two_level_def single_leaf_def)
  from insert_two_level[OF True, of key]
  obtain t' where "insert_key t key = Some t'" "two_level (insert key K) t'"
    "nodup t \<and> key \<notin> K \<longrightarrow> nodup t'" "links_kept (bm t) (bm t')"
    "nextPageID (bm t') = nextPageID (bm t) \<or> split_below_root t key t'" by blast
  then show ?thesis unfolding tree_inv_def using ns by blast
next
  case False
  then have sl: "single_leaf K t" using assms by (simp add: tree_inv_def)
  show ?thesis
  proof (cases "numKeys (data (pool (bm t) ! 0)) < MAX_KEYS")
    case True
    from insert_single_room[OF sl True, of key]
    obtain t' where "insert_key t key = Some t'" "single_leaf (insert key K) t'"
      "nodup t \<and> key \<notin> K \<longrightarrow> nodup t'" "links_kept (bm t) (bm t')" by blast
    then show ?thesis unfolding tree_inv_def using False by blast
  next
    case f: False
    from insert_single_full[OF sl f, of key]
    obtain t' where r: "insert_key t key = Some t'" "two_level (insert key K) t'"
      "nodup t \<and> key \<notin> K \<longrightarrow> nodup t'" "links_kept (bm t) (bm t')" by blast
    have "rootPage t' \<noteq> rootPage t" using r(2) sl by (simp add: two_level_def single_leaf_def)
    then show ?thesis unfolding tree_inv_def using r False by blast
  qed
qed

lemma inserts_inv:
  "tree_inv K t \<Longrightarrow>
   \<exists>t'. inserts t ks = Some t' \<and> tree_inv (K \<union> set ks) t' \<and>
        (nodup t \<and> distinct ks \<and> set ks \<inter> K = {} \<longrightarrow> nodup t') \<and>
        (two_level K t \<longrightarrow> two_level (K \<union> set ks) t')"
proof (induction ks arbitrary: K t)
  case Nil
  then show ?case by simp
next
  case (Cons k ks)
  from insert_key_inv[OF Cons.prems, of k]
  obtain t1 where i1: "insert_key t k = Some t1" and inv1: "tree_inv (insert k K) t1"
    and nd1: "nodup t \<and> k \<notin> K \<longrightarrow> nodup t1"
    and tl1: "two_level K t \<longrightarrow> two_level (insert k K) t1" by blast
  from Cons.IH[OF inv1]
  obtain t' where i2: "inserts t1 ks = Some t'" and inv2: "tree_inv (insert k K \<union> set ks) t'"
    and nd2: "nodup t1 \<and> distinct ks \<and> set ks \<inter> insert k K = {} \<longrightarrow> nodup t'"
    and tl2: "two_level (insert k K) t1 \<longrightarrow> two_level (insert k K \<union> set ks) t'" by blast
  have e: "insert k K \<union> set ks = K \<union> set (k # ks)" by auto
  have r: "inserts t (k # ks) = Some t'" using i1 i2 by simp
  have nd: "nodup t \<and> distinct (k # ks) \<and> set (k # ks) \<inter> K = {} \<longrightarrow> nodup t'"
    using nd1 nd2 by auto
  show ?case using r inv2 nd tl1 tl2 unfolding e by blast
qed

lemma fresh_inserts:
  "\<exists>t. inserts (fresh_tree name) ks = Some t \<and> tree_inv (set ks) t \<and>
       (distinct ks \<longrightarrow> nodup t)"
proof -
  have inv: "tree_inv {} (fresh_tree name)" using fresh_single[of name] by (simp add: tree_inv_def)
  from inserts_inv[OF inv, of ks] fresh_nodup[of name] show ?thesis by auto
qed

lemma node_at_frame:
  assumes "bm_inv b" "failbit (sm b)"
  shows "\<exists>g. g < BUFFER_CAPACITY \<and> node_at b p = data (pool b ! g)"
proof -
  have "node_at b p = data (pool (snd (fetchPage b p)) ! fst (fetchPage b p))"
    by (simp add: node_at_def case_prod_beta deref_def)
  also have "\<dots> = data (pool b ! fst (fetchPage b p))"
    by (rule fetchPage_failed(3)[OF assms(2)])
  finally show ?thesis using fetchPage_lt[OF assms(1), of p] by blast
qed

lemma single_leaf_is_shape:
  assumes sl: "single_leaf K t"
  shows "single_leaf_shape t" and "\<not> two_level_shape t"
proof -
  from sl have inv: "bm_inv (bm t)" and root: "rootPage t = 0" and lru0: "lru (bm t) = [0]"
    and pid0: "pageID (pool (bm t) ! 0) = 0" and leaf0: "isLeaf (data (pool (bm t) ! 0))"
    unfolding single_leaf_def by blast+
  note tab = single_leaf_table[OF inv lru0 pid0]
  have fp: "fetchPage (bm t) 0 = (0, touch 0 (bm_say (BufferHit 0) (bm t)))"
    by (rule fetchPage_hit[OF tab(1)])
  show "single_leaf_shape t"
    using leaf0 by (simp add: single_leaf_shape_def node_at_def root fp deref_def)
  show "\<not> two_level_shape t"
    using leaf0 by (simp add: two_level_shape_def root fp deref_def)
qed

lemma two_level_is_shape:
  assumes tl: "two_level K t"
  shows "two_level_shape t" and "\<not> single_leaf_shape t"
proof -
  let ?bt = "bm t"
  let ?b1 = "touch 2 (bm_say (BufferHit 2) ?bt)"
  from tl have inv: "bm_inv ?bt" and fb: "failbit (sm ?bt)" and root: "rootPage t = 2"
    and pt2: "pageTable ?bt 2 = Some 2" and l3: "length (lru ?bt) = 3"
    and rok: "root_ok (data (pool ?bt ! 2))"
    and lv: "isLeaf (data (pool ?bt ! 0))" "isLeaf (data (pool ?bt ! 1))"
    unfolding two_level_def by blast+
  have in2: "2 \<in> set (lru ?bt)" using bm_invD(5)[OF inv pt2] .
  have pid2: "pageID (pool ?bt ! 2) = 2" using bm_invD(6)[OF inv pt2] .
  have f2: "fetchPage ?bt 2 = (2, ?b1)" by (rule fetchPage_hit[OF pt2])
  have inv1: "bm_inv ?b1"
    using bm_inv_touch[of "bm_say (BufferHit 2) ?bt" 2] inv in2 by simp
  have l1: "length (lru ?b1) = 3"
    using distinct_length_removeAll[OF bm_invD(2)[OF inv] in2] l3 by simp
  have fb1: "failbit (sm ?b1)" using fb by simp
  have child: "isLeaf (node_at ?b1 c)" if c: "c = 0 \<or> c = 1" for c
  proof -
    define f where "f = fst (fetchPage ?b1 c)"
    have flt: "f < BUFFER_CAPACITY" unfolding f_def by (rule fetchPage_lt[OF inv1])
    have fne: "f \<noteq> 2"
    proof (cases "pageTable ?bt c")
      case (Some idx)
      then have "f = idx" by (simp add: f_def fetchPage_frame)
      then have "pageID (pool ?bt ! f) = c" using bm_invD(6)[OF inv Some] by simp
      then show ?thesis using pid2 c by auto
    next
      case None
      have ne: "removeAll 2 (lru ?bt) \<noteq> []"
        using distinct_length_removeAll[OF bm_invD(2)[OF inv] in2] l3 by auto
      have "f = last (lru ?b1)"
        using None l1 by (simp add: f_def fetchPage_frame BUFFER_CAPACITY_def)
      then have "f \<in> set (removeAll 2 (lru ?bt))" using ne last_in_set[OF ne] by simp
      then show ?thesis by auto
    qed
    have f01: "f = 0 \<or> f = 1" using flt fne by (simp add: BUFFER_CAPACITY_def) arith
    have "node_at ?b1 c = data (pool (snd (fetchPage ?b1 c)) ! f)"
      by (simp add: node_at_def case_prod_beta deref_def f_def)
    also have "\<dots> = data (pool ?b1 ! f)" by (rule fetchPage_failed(3)[OF fb1])
    finally have "node_at ?b1 c = data (pool ?bt ! f)" by simp
    then show ?thesis using f01 lv by auto
  qed
  show "two_level_shape t"
    unfolding two_level_shape_def root f2 using rok child[of 0] child[of 1]
    by (simp add: deref_def root_ok_def Let_def)
  show "\<not> single_leaf_shape t"
    unfolding single_leaf_shape_def node_at_def root f2 using rok
    by (simp add: deref_def root_ok_def)
qed

lemma two_level_allocated: "two_level K t \<Longrightarrow> 3 \<le> nextPageID (bm t)"
proof -
  assume tl: "two_level K t"
  then have "pageTable (bm t) 2 = Some 2"
    and "\<And>p i. pageTable (bm t) p = Some i \<Longrightarrow> p < nextPageID (bm t)"
    unfolding two_level_def by blast+
  then have "2 < nextPageID (bm t)" by blast
  then show ?thesis by simp
qed

lemma inserts_append:
  "inserts t (ks @ ks') = (case inserts t ks of None \<Rightarrow> None | Some t' \<Rightarrow> inserts t' ks')"
  by (induction ks arbitrary: t) (simp_all split: option.splits)

lemma tree_inv_frames:
  assumes "tree_inv K t"
  shows "bm_inv (bm t)" and "failbit (sm (bm t))"
    and "\<And>g. g < BUFFER_CAPACITY \<Longrightarrow> node_ok K (data (pool (bm t) ! g))"
  using assms unfolding tree_inv_def single_leaf_def two_level_def by blast+

section \<open>The file under the buffer manager\<close>

lemma evict_dead:
  assumes "dbFile (sm b) = []" "lru b \<noteq> [] \<longrightarrow> failbit (sm b)"
  shows "dbFile (sm (snd (evict b))) = []"
    and "failbit (sm b) \<Longrightarrow> failbit (sm (snd (evict b)))"
proof -
  have *: "dbFile (sm (snd (evict b))) = [] \<and> (failbit (sm b) \<longrightarrow> failbit (sm (snd (evict b))))"
  proof (cases "length (lru b) < BUFFER_CAPACITY")
    case True
    then show ?thesis using assms by (simp add: evict_free)
  next
    case False
    then have "lru b \<noteq> []" by (auto simp: BUFFER_CAPACITY_def)
    then have "failbit (sm b)" using assms(2) by blast
    then show ?thesis using False assms(1) by (simp add: evict_full writeDisk_failed)
  qed
  show "dbFile (sm (snd (evict b))) = []" using * by blast
  show "failbit (sm b) \<Longrightarrow> failbit (sm (snd (evict b)))" using * by blast
qed

lemma fetchPage_dead:
  assumes inv: "bm_inv b" and e: "dbFile (sm b) = []" and f: "lru b \<noteq> [] \<longrightarrow> failbit (sm b)"
  shows "dbFile (sm (snd (fetchPage b p))) = [] \<and> failbit (sm (snd (fetchPage b p)))"
proof (cases "pageTable b p")
  case (Some idx)
  have "lru b \<noteq> []" using bm_invD(5)[OF inv Some] by auto
  then show ?thesis using Some e f by (simp add: fetchPage_hit)
next
  case None
  let ?b0 = "bm_say (BufferMiss p) b"
  have e0: "dbFile (sm ?b0) = []" and f0: "lru ?b0 \<noteq> [] \<longrightarrow> failbit (sm ?b0)"
    using e f by simp_all
  note E = evict_dead[OF e0 f0]
  show ?thesis
    unfolding fetchPage_miss[OF None] using E(1)
    by (simp add: load_def readDisk_def Let_def)
qed

lemma bm_step_dead:
  assumes inv: "bm_inv b" and e: "dbFile (sm b) = []" and f: "lru b \<noteq> [] \<longrightarrow> failbit (sm b)"
  shows "dbFile (sm (bm_step b c)) = [] \<and> (lru (bm_step b c) \<noteq> [] \<longrightarrow> failbit (sm (bm_step b c)))"
proof (cases c)
  case (FetchPage p)
  then show ?thesis using fetchPage_dead[OF inv e f, of p] by simp
next
  case AllocatePage
  let ?b1 = "bm_say (Allocating (nextPageID b)) (b\<lparr>nextPageID := nextPageID b + 1\<rparr>)"
  have inv1: "bm_inv ?b1" using inv by simp
  have "dbFile (sm ?b1) = []" "lru ?b1 \<noteq> [] \<longrightarrow> failbit (sm ?b1)" using e f by simp_all
  from fetchPage_dead[OF inv1 this, of "nextPageID b"] AllocatePage
  show ?thesis by (simp add: allocatePage_eq)
next
  case (MarkDirty p)
  then show ?thesis using e f by simp
qed

lemma bm_run_dead:
  "bm_inv b \<Longrightarrow> dbFile (sm b) = [] \<Longrightarrow> lru b \<noteq> [] \<longrightarrow> failbit (sm b) \<Longrightarrow>
   dbFile (sm (bm_run b cs)) = [] \<and> (lru (bm_run b cs) \<noteq> [] \<longrightarrow> failbit (sm (bm_run b cs)))"
proof (induction cs arbitrary: b)
  case Nil
  then show ?case by simp
next
  case (Cons c cs)
  from bm_step_dead[OF Cons.prems, of c] bm_step_inv[OF Cons.prems(1), of c]
  show ?case using Cons.IH[of "bm_step b c"] by simp
qed

section \<open>Descent to a leaf\<close>

lemma findLeaf_scan_spec:
  assumes "0 \<le> i" "numKeys n \<le> int (length (keys n))"
  shows "\<exists>j. findLeaf_scan n key i = Some j \<and> i \<le> j \<and> (j \<le> numKeys n \<or> j = i) \<and>
             (\<forall>k. i \<le> k \<and> k < j \<longrightarrow> keys n ! nat k \<le> key) \<and>
             (j < numKeys n \<longrightarrow> key < keys n ! nat j)"
  using assms
proof (induction n key i rule: findLeaf_scan.induct)
  case (1 n key i)
  show ?case
  proof (cases "i < numKeys n")
    case False
    then show ?thesis by (subst findLeaf_scan.simps) auto
  next
    case True
    then have rd: "array_read (keys n) i = Some (keys n ! nat i)"
      using 1(2,3) by (simp add: array_read_def)
    show ?thesis
    proof (cases "key \<ge> keys n ! nat i")
      case False
      then show ?thesis using True rd by (subst findLeaf_scan.simps) auto
    next
      case ge: True
      from 1(1)[OF True rd ge] 1(2,3)
      obtain j where j: "findLeaf_scan n key (i + 1) = Some j" "i + 1 \<le> j"
        "j \<le> numKeys n \<or> j = i + 1"
        "\<forall>k. i + 1 \<le> k \<and> k < j \<longrightarrow> keys n ! nat k \<le> key"
        "j < numKeys n \<longrightarrow> key < keys n ! nat j"
        by auto
      have "keys n ! nat k \<le> key" if "i \<le> k" "k < j" for k
      proof (cases "k = i")
        case True
        then show ?thesis using ge by simp
      next
        case False
        then show ?thesis using that j(4) by auto
      qed
      moreover have "findLeaf_scan n key i = Some j"
        using True rd ge j(1) by (subst findLeaf_scan.simps) simp
      ultimately show ?thesis using j True by auto
    qed
  qed
qed

text \<open>
  C7. \<open>findLeaf page key\<close> fetches the page. If the node is a leaf, the page is returned.
  Otherwise, for a node whose key count is within bounds, there is an index \<open>i\<close> between 0
  and \<open>numKeys\<close> such that every key before \<open>i\<close> is at most \<open>key\<close>, the key at \<open>i\<close> (when
  \<open>i < numKeys\<close>) is greater than \<open>key\<close>, and the search continues in \<open>children[i]\<close>: \<open>i\<close> is
  the first index with \<open>key < keys[i]\<close>, or \<open>numKeys\<close> when there is none. In a node with
  ascending keys every stored key equal to \<open>key\<close> lies left of \<open>i\<close>.
\<close>

theorem findLeaf_routing:
  assumes "fetchPage b page = (node, b1)"
  shows "(isLeaf (deref b1 node) \<longrightarrow> findLeaf b page key = Some (page, b1)) \<and>
         (\<not> isLeaf (deref b1 node) \<and> 0 \<le> numKeys (deref b1 node) \<and>
          numKeys (deref b1 node) \<le> MAX_KEYS \<and>
          int (length (keys (deref b1 node))) = MAX_KEYS \<and>
          int (length (children (deref b1 node))) = MAX_KEYS + 1 \<longrightarrow>
            (\<exists>i. 0 \<le> i \<and> i \<le> numKeys (deref b1 node) \<and>
                 (\<forall>k. 0 \<le> k \<and> k < i \<longrightarrow> keys (deref b1 node) ! nat k \<le> key) \<and>
                 (i < numKeys (deref b1 node) \<longrightarrow> key < keys (deref b1 node) ! nat i) \<and>
                 (sorted (leaf_keys (deref b1 node)) \<longrightarrow>
                    (\<forall>k. 0 \<le> k \<and> k < numKeys (deref b1 node) \<and>
                         keys (deref b1 node) ! nat k = key \<longrightarrow> k < i)) \<and>
                 findLeaf b page key = findLeaf b1 (children (deref b1 node) ! nat i) key))"
proof (intro conjI impI)
  assume "isLeaf (deref b1 node)"
  then show "findLeaf b page key = Some (page, b1)"
    using assms by (subst findLeaf.simps) simp
next
  let ?n = "deref b1 node"
  assume a: "\<not> isLeaf ?n \<and> 0 \<le> numKeys ?n \<and> numKeys ?n \<le> MAX_KEYS \<and>
          int (length (keys ?n)) = MAX_KEYS \<and> int (length (children ?n)) = MAX_KEYS + 1"
  then have "numKeys ?n \<le> int (length (keys ?n))" by simp
  from findLeaf_scan_spec[OF _ this, of 0 key] a
  obtain i where i: "findLeaf_scan ?n key 0 = Some i" "0 \<le> i" "i \<le> numKeys ?n"
    "\<forall>k. 0 \<le> k \<and> k < i \<longrightarrow> keys ?n ! nat k \<le> key"
    "i < numKeys ?n \<longrightarrow> key < keys ?n ! nat i"
    by auto
  have rd: "array_read (children ?n) i = Some (children ?n ! nat i)"
    using i(2,3) a by (simp add: array_read_def)
  have step: "findLeaf b page key = findLeaf b1 (children ?n ! nat i) key"
    using assms a i(1) rd by (subst findLeaf.simps) simp
  have dup: "k < i" if s: "sorted (leaf_keys ?n)" and k: "0 \<le> k" "k < numKeys ?n" "keys ?n ! nat k = key" for k
  proof (rule ccontr)
    assume "\<not> k < i"
    then have ik: "i \<le> k" by simp
    then have lt: "i < numKeys ?n" using k by simp
    then have "key < keys ?n ! nat i" using i(5) by simp
    moreover have "leaf_keys ?n ! nat i \<le> leaf_keys ?n ! nat k"
      using s ik k i(2) a by (intro sorted_nth_mono) (auto simp: leaf_keys_def)
    ultimately show False using k lt i(2) by (simp add: leaf_keys_def)
  qed
  show "\<exists>i. 0 \<le> i \<and> i \<le> numKeys ?n \<and>
                 (\<forall>k. 0 \<le> k \<and> k < i \<longrightarrow> keys ?n ! nat k \<le> key) \<and>
                 (i < numKeys ?n \<longrightarrow> key < keys ?n ! nat i) \<and>
                 (sorted (leaf_keys ?n) \<longrightarrow>
                    (\<forall>k. 0 \<le> k \<and> k < numKeys ?n \<and> keys ?n ! nat k = key \<longrightarrow> k < i)) \<and>
                 findLeaf b page key = findLeaf b1 (children ?n ! nat i) key"
    using i(2,3,4,5) step dup by blast
qed

theorem findLeaf_routing_witness:
  "(let b = bm (the (inserts (fresh_tree ''database.db'') [10, 20, 30, 40, 50]));
        n = deref (snd (fetchPage b 2)) (fst (fetchPage b 2))
    in \<not> isLeaf n \<and> numKeys n = 1 \<and> keys n = [30, 0, 0] \<and> children n = [0, 1, 0, 0] \<and>
       findLeaf b 2 30 = findLeaf (snd (fetchPage b 2)) 1 30 \<and>
       isLeaf (deref (snd (fetchPage b 0)) (fst (fetchPage b 0))) \<and>
       findLeaf b 0 5 = Some (0, snd (fetchPage b 0)))"
proof -
  define b where "b = bm (the (inserts (fresh_tree ''database.db'') [10, 20, 30, 40, 50]))"
  define n where "n = deref (snd (fetchPage b 2)) (fst (fetchPage b 2))"
  have c: "isLeaf n = False" "numKeys n = 1" "keys n = [30, 0, 0]" "children n = [0, 1, 0, 0]"
    and l: "isLeaf (deref (snd (fetchPage b 0)) (fst (fetchPage b 0)))"
    unfolding n_def b_def by code_simp+
  have f2: "fetchPage b 2 = (fst (fetchPage b 2), snd (fetchPage b 2))"
    and f0: "fetchPage b 0 = (fst (fetchPage b 0), snd (fetchPage b 0))" by simp_all
  from findLeaf_routing[OF f2, of 30, folded n_def]
  obtain i where i: "0 \<le> i" "i \<le> numKeys n" "i < numKeys n \<longrightarrow> 30 < keys n ! nat i"
    "findLeaf b 2 30 = findLeaf (snd (fetchPage b 2)) (children n ! nat i) 30"
    by (auto simp: c MAX_KEYS_def)
  have "i = 1" using i(1,2,3) by (cases "i = 0") (auto simp: c)
  then have r: "findLeaf b 2 30 = findLeaf (snd (fetchPage b 2)) 1 30" using i(4) by (simp add: c)
  have r0: "findLeaf b 0 5 = Some (0, snd (fetchPage b 0))"
    using findLeaf_routing[OF f0, of 5] l by simp
  show ?thesis unfolding Let_def b_def[symmetric] n_def[symmetric]
    using c r l r0 by simp
qed

section \<open>Splitting a leaf\<close>



section \<open>The state after any sequence of inserts\<close>

text \<open>
  Inserting 10 twice leaves the root leaf with the keys [10, 10]: \<open>insertIntoLeaf\<close> places
  a key without looking for it, so the keys of a leaf need not be strictly ascending.
\<close>

theorem leaf_keys_strict_counterexample:
  "(case inserts (fresh_tree ''database.db'') [10, 10] of
      None \<Rightarrow> False
    | Some t \<Rightarrow>
        rootPage t = 0 \<and> isLeaf (node_at (bm t) 0) \<and> leaf_keys (node_at (bm t) 0) = [10, 10] \<and>
        \<not> sorted_wrt (<) (leaf_keys (node_at (bm t) 0)))"
  by code_simp

text \<open>
  C4. Every sequence of inserts from a fresh tree returns, and in the state it leaves the
  node seen at any page has between 0 and \<open>MAX_KEYS\<close> keys, in ascending order, all of them
  among the keys inserted; when the keys inserted are pairwise distinct, the order is
  strict.
\<close>

theorem leaf_keys_ascending:
  "\<exists>t. inserts (fresh_tree name) ks = Some t \<and>
       (\<forall>p. 0 \<le> numKeys (node_at (bm t) p) \<and> numKeys (node_at (bm t) p) \<le> MAX_KEYS \<and>
            sorted (leaf_keys (node_at (bm t) p)) \<and>
            set (leaf_keys (node_at (bm t) p)) \<subseteq> set ks \<and>
            (distinct ks \<longrightarrow> sorted_wrt (<) (leaf_keys (node_at (bm t) p))))"
proof -
  from fresh_inserts[of name ks] obtain t where r: "inserts (fresh_tree name) ks = Some t"
    and inv: "tree_inv (set ks) t" and nd: "distinct ks \<longrightarrow> nodup t" by blast
  note F = tree_inv_frames[OF inv]
  have "0 \<le> numKeys (node_at (bm t) p) \<and> numKeys (node_at (bm t) p) \<le> MAX_KEYS \<and>
        sorted (leaf_keys (node_at (bm t) p)) \<and>
        set (leaf_keys (node_at (bm t) p)) \<subseteq> set ks \<and>
        (distinct ks \<longrightarrow> sorted_wrt (<) (leaf_keys (node_at (bm t) p)))" for p
  proof -
    from node_at_frame[OF F(1,2), of p] obtain g where g: "g < BUFFER_CAPACITY"
      and n: "node_at (bm t) p = data (pool (bm t) ! g)" by blast
    have ok: "node_ok (set ks) (node_at (bm t) p)" using F(3)[OF g] n by simp
    have "distinct (leaf_keys (node_at (bm t) p))" if "distinct ks"
      using nd that g n by (simp add: nodup_def)
    then have "distinct ks \<longrightarrow> sorted_wrt (<) (leaf_keys (node_at (bm t) p))"
      using ok by (simp add: node_ok_def strict_sorted_iff)
    then show ?thesis using ok by (simp add: node_ok_def)
  qed
  then show ?thesis using r by blast
qed

theorem leaf_keys_ascending_witness:
  "\<exists>t. inserts (fresh_tree ''database.db'') [10, 20, 30, 40, 50] = Some t \<and>
       distinct [10, 20, 30, 40, 50 :: int] \<and>
       leaf_keys (node_at (bm t) 1) = [30, 40, 50] \<and>
       numKeys (node_at (bm t) 1) \<le> MAX_KEYS \<and>
       sorted_wrt (<) (leaf_keys (node_at (bm t) 1))"
proof -
  from leaf_keys_ascending[of "''database.db''" "[10, 20, 30, 40, 50]"]
  obtain t where t: "inserts (fresh_tree ''database.db'') [10, 20, 30, 40, 50] = Some t"
    and a: "numKeys (node_at (bm t) 1) \<le> MAX_KEYS"
      "distinct [10, 20, 30, 40, 50 :: int] \<longrightarrow> sorted_wrt (<) (leaf_keys (node_at (bm t) 1))"
    by blast
  have d: "distinct [10, 20, 30, 40, 50 :: int]" by simp
  have "leaf_keys (node_at (bm (the (inserts (fresh_tree ''database.db'') [10, 20, 30, 40, 50]))) 1)
          = [30, 40, 50]" by code_simp
  then have k: "leaf_keys (node_at (bm t) 1) = [30, 40, 50]" using t by simp
  show ?thesis using t d k a by blast
qed

text \<open>
  C8. Every sequence of inserts from a fresh tree returns, and leaves one of two shapes:
  the root is page 0, a leaf, and no other page was ever allocated (no split has happened);
  or the root is page 2, internal with one key, over the two leaves page 0 and page 1.
  The two shapes exclude each other, and a tree of the second shape keeps that shape under
  any further inserts: no deeper tree is ever built.
\<close>

theorem tree_shapes:
  "\<exists>t. inserts (fresh_tree name) ks = Some t \<and>
       (single_leaf_shape t \<and> \<not> two_level_shape t \<and> rootPage t = 0 \<and> nextPageID (bm t) = 1 \<or>
        two_level_shape t \<and> \<not> single_leaf_shape t \<and> rootPage t = 2 \<and>
          take 2 (children (node_at (bm t) 2)) = [0, 1] \<and> 3 \<le> nextPageID (bm t)) \<and>
       (\<forall>ks'. \<exists>t'. inserts t ks' = Some t' \<and> (two_level_shape t \<longrightarrow> two_level_shape t'))"
proof -
  from fresh_inserts[of name ks] obtain t where r: "inserts (fresh_tree name) ks = Some t"
    and inv: "tree_inv (set ks) t" by blast
  have shape: "single_leaf_shape t \<and> \<not> two_level_shape t \<and> rootPage t = 0 \<and>
        nextPageID (bm t) = 1 \<or>
      two_level_shape t \<and> \<not> single_leaf_shape t \<and> rootPage t = 2 \<and>
        take 2 (children (node_at (bm t) 2)) = [0, 1] \<and> 3 \<le> nextPageID (bm t)"
  proof (cases "single_leaf (set ks) t")
    case True
    then have "rootPage t = 0" "nextPageID (bm t) = 1" by (simp_all add: single_leaf_def)
    then show ?thesis using single_leaf_is_shape[OF True] by simp
  next
    case False
    then have tl: "two_level (set ks) t" using inv by (simp add: tree_inv_def)
    then have root: "rootPage t = 2" and pt2: "pageTable (bm t) 2 = Some 2"
      and rok: "root_ok (data (pool (bm t) ! 2))"
      by (simp_all add: two_level_def)
    have "node_at (bm t) 2 = data (pool (bm t) ! 2)"
      by (simp add: node_at_def fetchPage_hit[OF pt2] deref_def)
    then have "take 2 (children (node_at (bm t) 2)) = [0, 1]"
      using rok by (auto simp: root_ok_def take_Suc_conv_app_nth numeral_2_eq_2)
    then show ?thesis
      using two_level_is_shape[OF tl] root two_level_allocated[OF tl] by simp
  qed
  have later: "\<exists>t'. inserts t ks' = Some t' \<and> (two_level_shape t \<longrightarrow> two_level_shape t')" for ks'
  proof -
    from inserts_inv[OF inv, of ks'] obtain t' where r': "inserts t ks' = Some t'"
      and k: "two_level (set ks) t \<longrightarrow> two_level (set ks \<union> set ks') t'" by blast
    have "two_level_shape t'" if s: "two_level_shape t"
    proof -
      have "\<not> single_leaf (set ks) t" using single_leaf_is_shape(2)[of "set ks" t] s by blast
      then have "two_level (set ks) t" using inv by (simp add: tree_inv_def)
      then show ?thesis using k two_level_is_shape(1) by blast
    qed
    then show ?thesis using r' by blast
  qed
  show ?thesis using r shape later by blast
qed

theorem tree_shapes_witness:
  "(\<exists>t. inserts (fresh_tree ''database.db'') [10, 20, 30] = Some t \<and>
        single_leaf_shape t \<and> rootPage t = 0 \<and> nextPageID (bm t) = 1) \<and>
   (\<exists>t t'. inserts (fresh_tree ''database.db'') [10, 20, 30, 40] = Some t \<and>
        two_level_shape t \<and> rootPage t = 2 \<and>
        inserts t [50, 60, 70, 80] = Some t' \<and> two_level_shape t')"
proof -
  have r1: "map_option rootPage (inserts (fresh_tree ''database.db'') [10, 20, 30]) = Some 0"
    and r2: "map_option rootPage (inserts (fresh_tree ''database.db'') [10, 20, 30, 40]) = Some 2"
    by code_simp+
  from tree_shapes[of "''database.db''" "[10, 20, 30]"] r1
  have a: "\<exists>t. inserts (fresh_tree ''database.db'') [10, 20, 30] = Some t \<and>
        single_leaf_shape t \<and> rootPage t = 0 \<and> nextPageID (bm t) = 1"
    by auto
  from tree_shapes[of "''database.db''" "[10, 20, 30, 40]"]
  obtain t where t: "inserts (fresh_tree ''database.db'') [10, 20, 30, 40] = Some t"
    and s: "single_leaf_shape t \<and> \<not> two_level_shape t \<and> rootPage t = 0 \<and>
        nextPageID (bm t) = 1 \<or>
      two_level_shape t \<and> \<not> single_leaf_shape t \<and> rootPage t = 2 \<and>
        take 2 (children (node_at (bm t) 2)) = [0, 1] \<and> 3 \<le> nextPageID (bm t)"
    and l: "\<And>ks'. \<exists>t'. inserts t ks' = Some t' \<and> (two_level_shape t \<longrightarrow> two_level_shape t')"
    by blast
  have root: "rootPage t = 2" using r2 t by simp
  then have tl: "two_level_shape t" using s by auto
  from l[of "[50, 60, 70, 80]"] tl obtain t' where
    "inserts t [50, 60, 70, 80] = Some t'" "two_level_shape t'" by blast
  then show ?thesis using a t tl root by blast
qed



section \<open>Parent insertion below the root\<close>

text \<open>
  C1. \<open>insertIntoParent left key right\<close> with \<open>left\<close> not the root page does nothing: the
  tree it returns is the tree it was given (root reference, every frame, the page table,
  the disk and the console unchanged). And in the calls the program makes: after any
  sequence of inserts from a fresh tree, when one more insert splits a leaf of a tree whose
  root is page 2 (it allocated a page, \<open>new\<close>), the insert ends in
  \<open>insertIntoParent l pk new\<close> with \<open>l\<close> the leaf \<open>findLeaf\<close> chose, not the root, and that call
  returns its state unchanged. In that state \<open>new\<close> is allocated and resident, a leaf whose
  first key is the promoted key \<open>pk\<close>; the root reference and the root node are what they
  were before the insert, the root still has one key and the children 0 and 1, and no
  descent from the root, for any key, ends in \<open>new\<close>.
\<close>

theorem insertIntoParent_not_root:
  "(left \<noteq> rootPage t \<longrightarrow> insertIntoParent t left key right = Some t) \<and>
   (\<exists>u u'. inserts (fresh_tree name) ks = Some u \<and> insert_key u k = Some u' \<and>
      (rootPage u = 2 \<and> nextPageID (bm u') \<noteq> nextPageID (bm u) \<longrightarrow>
        (\<exists>l pk b2 z.
           findLeaf (bm_say (UserInsert k) (bm u)) (rootPage u) k = Some (l, b2) \<and>
           l \<noteq> rootPage u' \<and>
           insert_key u k = insertIntoParent u' l pk (nextPageID (bm u)) \<and>
           insertIntoParent u' l pk (nextPageID (bm u)) = Some u' \<and>
           nextPageID (bm u') = nextPageID (bm u) + 1 \<and> 3 \<le> nextPageID (bm u) \<and>
           pageTable (bm u') (nextPageID (bm u)) = Some z \<and>
           isLeaf (data (pool (bm u') ! z)) \<and>
           hd (leaf_keys (data (pool (bm u') ! z))) = pk \<and>
           rootPage u' = rootPage u \<and>
           cached (bm u') (rootPage u') = cached (bm u) (rootPage u) \<and>
           node_at (bm u') (rootPage u') = node_at (bm u) (rootPage u) \<and>
           \<not> isLeaf (node_at (bm u') (rootPage u')) \<and>
           numKeys (node_at (bm u') (rootPage u')) = 1 \<and>
           take 2 (children (node_at (bm u') (rootPage u'))) = [0, 1] \<and>
           (\<forall>q. \<exists>c b. findLeaf (bm u') (rootPage u') q = Some (c, b) \<and>
                   c \<noteq> nextPageID (bm u)))))"
proof -
  have A: "left \<noteq> rootPage t \<longrightarrow> insertIntoParent t left key right = Some t"
    by (simp add: insertIntoParent_def)
  from fresh_inserts[of name ks] obtain u where r: "inserts (fresh_tree name) ks = Some u"
    and inv: "tree_inv (set ks) u" by blast
  from insert_key_inv[OF inv, of k] obtain u' where i: "insert_key u k = Some u'"
    and inv': "tree_inv (insert k (set ks)) u'"
    and k2: "two_level (set ks) u \<longrightarrow> two_level (insert k (set ks)) u'"
    and sp: "two_level (set ks) u \<longrightarrow>
               nextPageID (bm u') = nextPageID (bm u) \<or> split_below_root u k u'" by blast
  have B: "\<exists>l pk b2 z.
           findLeaf (bm_say (UserInsert k) (bm u)) (rootPage u) k = Some (l, b2) \<and>
           l \<noteq> rootPage u' \<and>
           insert_key u k = insertIntoParent u' l pk (nextPageID (bm u)) \<and>
           insertIntoParent u' l pk (nextPageID (bm u)) = Some u' \<and>
           nextPageID (bm u') = nextPageID (bm u) + 1 \<and> 3 \<le> nextPageID (bm u) \<and>
           pageTable (bm u') (nextPageID (bm u)) = Some z \<and>
           isLeaf (data (pool (bm u') ! z)) \<and>
           hd (leaf_keys (data (pool (bm u') ! z))) = pk \<and>
           rootPage u' = rootPage u \<and>
           cached (bm u') (rootPage u') = cached (bm u) (rootPage u) \<and>
           node_at (bm u') (rootPage u') = node_at (bm u) (rootPage u) \<and>
           \<not> isLeaf (node_at (bm u') (rootPage u')) \<and>
           numKeys (node_at (bm u') (rootPage u')) = 1 \<and>
           take 2 (children (node_at (bm u') (rootPage u'))) = [0, 1] \<and>
           (\<forall>q. \<exists>c b. findLeaf (bm u') (rootPage u') q = Some (c, b) \<and>
                   c \<noteq> nextPageID (bm u))"
    if root: "rootPage u = 2" and ne: "nextPageID (bm u') \<noteq> nextPageID (bm u)"
  proof -
    have "\<not> single_leaf (set ks) u" using root by (simp add: single_leaf_def)
    then have tl: "two_level (set ks) u" using inv by (simp add: tree_inv_def)
    then have tl': "two_level (insert k (set ks)) u'" using k2 by blast
    from sp tl ne have "split_below_root u k u'" by blast
    then obtain l pk b2 z where
      fl: "findLeaf (bm_say (UserInsert k) (bm u)) (rootPage u) k = Some (l, b2)"
      and l: "l \<noteq> rootPage u'"
      and call: "insert_key u k = insertIntoParent u' l pk (nextPageID (bm u))"
      and np: "nextPageID (bm u') = nextPageID (bm u) + 1"
      and pt: "pageTable (bm u') (nextPageID (bm u)) = Some z"
      and lf: "isLeaf (data (pool (bm u') ! z))"
      and hd: "hd (leaf_keys (data (pool (bm u') ! z))) = pk"
      and d2: "data (pool (bm u') ! 2) = data (pool (bm u) ! 2)"
      unfolding split_below_root_def by blast
    have noop: "insertIntoParent u' l pk (nextPageID (bm u)) = Some u'"
      using l by (simp add: insertIntoParent_def)
    have n3: "3 \<le> nextPageID (bm u)" by (rule two_level_allocated[OF tl])
    have root': "rootPage u' = 2" and pt2': "pageTable (bm u') 2 = Some 2"
      and rok': "root_ok (data (pool (bm u') ! 2))"
      using tl' by (simp_all add: two_level_def)
    have pt2: "pageTable (bm u) 2 = Some 2" using tl by (simp add: two_level_def)
    have c: "cached (bm u') 2 = cached (bm u) 2" using pt2 pt2' d2 by (simp add: cached_def)
    have n': "node_at (bm u') 2 = data (pool (bm u') ! 2)"
      by (simp add: node_at_def fetchPage_hit[OF pt2'] deref_def)
    have n: "node_at (bm u) 2 = data (pool (bm u) ! 2)"
      by (simp add: node_at_def fetchPage_hit[OF pt2] deref_def)
    have nn: "node_at (bm u') 2 = node_at (bm u) 2" using n n' d2 by simp
    have nl: "\<not> isLeaf (node_at (bm u') 2)" and nk: "numKeys (node_at (bm u') 2) = 1"
      using rok' n' by (simp_all add: root_ok_def)
    have ch: "take 2 (children (node_at (bm u') 2)) = [0, 1]"
      using rok' n' by (auto simp: root_ok_def take_Suc_conv_app_nth numeral_2_eq_2)
    have un: "\<exists>c b. findLeaf (bm u') (rootPage u') q = Some (c, b) \<and> c \<noteq> nextPageID (bm u)"
      for q
    proof -
      from two_level_descent[OF tl', of q] obtain c b where "c = 0 \<or> c = 1"
        "findLeaf (bm u') (rootPage u') q = Some (c, b)" by blast
      then show ?thesis using n3 by auto
    qed
    show ?thesis unfolding root' root
      using fl[unfolded root] l[unfolded root'] call noop np n3 pt lf hd c nn nl nk ch
        un[unfolded root'] by blast
  qed
  show ?thesis using A r i B by blast
qed

theorem insertIntoParent_not_root_witness:
  "\<exists>u u'. inserts (fresh_tree ''database.db'') [10, 20, 30, 40, 50] = Some u \<and>
      insert_key u 60 = Some u' \<and>
      rootPage u = 2 \<and> nextPageID (bm u) = 3 \<and> nextPageID (bm u') = 4 \<and>
      1 \<noteq> rootPage u' \<and>
      insert_key u 60 = insertIntoParent u' 1 50 3 \<and>
      insertIntoParent u' 1 50 3 = Some u' \<and>
      map_option (\<lambda>n. (isLeaf n, leaf_keys n)) (cached (bm u') 3) = Some (True, [50, 60]) \<and>
      rootPage u' = 2 \<and>
      cached (bm u') 2 = cached (bm u) 2 \<and>
      leaf_keys (node_at (bm u') 2) = [30] \<and>
      take 2 (children (node_at (bm u') 2)) = [0, 1] \<and>
      map_option fst (findLeaf (bm u') 2 60) = Some 1"
proof -
  from insertIntoParent_not_root[where name = "''database.db''" and ks = "[10, 20, 30, 40, 50]"
      and k = 60]
  obtain u u' where u: "inserts (fresh_tree ''database.db'') [10, 20, 30, 40, 50] = Some u"
    and i: "insert_key u 60 = Some u'"
    and B: "rootPage u = 2 \<and> nextPageID (bm u') \<noteq> nextPageID (bm u) \<longrightarrow>
        (\<exists>l pk b2 z.
           findLeaf (bm_say (UserInsert 60) (bm u)) (rootPage u) 60 = Some (l, b2) \<and>
           l \<noteq> rootPage u' \<and>
           insert_key u 60 = insertIntoParent u' l pk (nextPageID (bm u)) \<and>
           pageTable (bm u') (nextPageID (bm u)) = Some z \<and>
           hd (leaf_keys (data (pool (bm u') ! z))) = pk \<and>
           rootPage u' = rootPage u \<and>
           cached (bm u') (rootPage u') = cached (bm u) (rootPage u) \<and>
           take 2 (children (node_at (bm u') (rootPage u'))) = [0, 1])"
    by blast
  have "rootPage (the (inserts (fresh_tree ''database.db'') [10, 20, 30, 40, 50])) = 2"
    "nextPageID (bm (the (inserts (fresh_tree ''database.db'') [10, 20, 30, 40, 50]))) = 3"
    "map_option fst (findLeaf (bm_say (UserInsert 60)
        (bm (the (inserts (fresh_tree ''database.db'') [10, 20, 30, 40, 50])))) 2 60) = Some 1"
    by code_simp+
  then have c: "rootPage u = 2" "nextPageID (bm u) = 3"
    "map_option fst (findLeaf (bm_say (UserInsert 60) (bm u)) 2 60) = Some 1"
    using u by simp_all
  have "inserts (fresh_tree ''database.db'') ([10, 20, 30, 40, 50] @ [60]) = Some u'"
    unfolding inserts_append u by (simp add: i)
  then have u': "u' = the (inserts (fresh_tree ''database.db'') ([10, 20, 30, 40, 50] @ [60]))"
    by simp
  have "nextPageID (bm (the (inserts (fresh_tree ''database.db'') ([10, 20, 30, 40, 50] @ [60])))) = 4"
    "map_option (\<lambda>n. (isLeaf n, leaf_keys n))
       (cached (bm (the (inserts (fresh_tree ''database.db'') ([10, 20, 30, 40, 50] @ [60])))) 3)
       = Some (True, [50, 60])"
    "leaf_keys (node_at (bm (the (inserts (fresh_tree ''database.db'')
       ([10, 20, 30, 40, 50] @ [60])))) 2) = [30]"
    "map_option fst (findLeaf (bm (the (inserts (fresh_tree ''database.db'')
       ([10, 20, 30, 40, 50] @ [60])))) 2 60) = Some 1"
    by code_simp+
  then have c': "nextPageID (bm u') = 4"
    "map_option (\<lambda>n. (isLeaf n, leaf_keys n)) (cached (bm u') 3) = Some (True, [50, 60])"
    "leaf_keys (node_at (bm u') 2) = [30]"
    "map_option fst (findLeaf (bm u') 2 60) = Some 1"
    unfolding u' by blast+
  from B c c' obtain l pk b2 z where
    fl: "findLeaf (bm_say (UserInsert 60) (bm u)) 2 60 = Some (l, b2)"
    and l: "l \<noteq> rootPage u'"
    and call: "insert_key u 60 = insertIntoParent u' l pk 3"
    and pt: "pageTable (bm u') 3 = Some z"
    and hd: "hd (leaf_keys (data (pool (bm u') ! z))) = pk"
    and r': "rootPage u' = 2"
    and ca: "cached (bm u') 2 = cached (bm u) 2"
    and ch: "take 2 (children (node_at (bm u') 2)) = [0, 1]"
    by auto
  have l1: "l = 1" using fl c(3) by simp
  have pk: "pk = 50" using c'(2) pt hd by (auto simp: cached_def)
  have ne: "1 \<noteq> rootPage u'" using r' by simp
  have noop: "insertIntoParent u' 1 50 3 = Some u'"
    using insertIntoParent_not_root[where left = 1 and t = u' and key = 50 and right = 3] ne by blast
  show ?thesis
    using u i c(1,2) c'(1) ne call[unfolded l1 pk] noop c'(2) r' ca c'(3) ch c'(4) by blast
qed

section \<open>Write-back of a dirty victim\<close>

text \<open>
  C6. The victim's bytes do not reach the file. The constructor of the storage manager
  truncates the file, so the first miss of the buffer manager reads past its end and the
  stream fails; every later \<open>seekp\<close> and \<open>write\<close> does nothing. After any sequence of
  \<open>fetchPage\<close>, \<open>allocatePage\<close> and \<open>markDirty\<close> calls on a buffer manager built over a fresh
  storage manager the file is empty, and it is still empty after an \<open>evict\<close>. After three
  allocations the buffer is full, the victim is frame 0 holding the dirty page 0, and
  \<open>evict\<close> prints the eviction and the write and leaves the file without page 0; after
  the fourth allocation the write of page 0 is on the console, and page 0 is neither in
  the cache nor in the file.
\<close>

theorem evict_dirty_write_lost:
  "dbFile (sm (bm_run (BufferManager_init (StorageManager_init name)) calls)) = [] \<and>
   dbFile (sm (snd (evict (bm_run (BufferManager_init (StorageManager_init name)) calls)))) = [] \<and>
   (let b = bm_run (BufferManager_init (StorageManager_init name))
              [AllocatePage, AllocatePage, AllocatePage]
    in \<not> length (lru b) < BUFFER_CAPACITY \<and> last (lru b) = 0 \<and>
       pageID (pool b ! 0) = 0 \<and> dirty (pool b ! 0) \<and> failbit (sm b) \<and>
       fst (evict b) = 0 \<and>
       console (sm (snd (evict b))) = console (sm b) @ [Evicting 0, DiskWriting 0] \<and>
       dbFile (sm (snd (evict b))) = []) \<and>
   (let b = bm_run (BufferManager_init (StorageManager_init name))
              [AllocatePage, AllocatePage, AllocatePage, AllocatePage]
    in DiskWriting 0 \<in> set (console (sm b)) \<and> cached b 0 = None \<and> dbFile (sm b) = [])"
proof -
  let ?b0 = "BufferManager_init (StorageManager_init name)"
  have i: "bm_inv ?b0" by (rule bm_inv_init)
  have e: "dbFile (sm ?b0) = []" and f: "lru ?b0 \<noteq> [] \<longrightarrow> failbit (sm ?b0)"
    by (simp_all add: BufferManager_init_def StorageManager_init_def)
  note D = bm_run_dead[OF i e f, of calls]
  have a: "dbFile (sm (bm_run ?b0 calls)) = []" using D by blast
  have b: "dbFile (sm (snd (evict (bm_run ?b0 calls)))) = []"
    using evict_dead(1)[of "bm_run ?b0 calls"] D by blast
  have c: "(let b = bm_run ?b0 [AllocatePage, AllocatePage, AllocatePage]
    in \<not> length (lru b) < BUFFER_CAPACITY \<and> last (lru b) = 0 \<and>
       pageID (pool b ! 0) = 0 \<and> dirty (pool b ! 0) \<and> failbit (sm b) \<and>
       fst (evict b) = 0 \<and>
       console (sm (snd (evict b))) = console (sm b) @ [Evicting 0, DiskWriting 0] \<and>
       dbFile (sm (snd (evict b))) = [])"
    by code_simp
  have d: "(let b = bm_run ?b0 [AllocatePage, AllocatePage, AllocatePage, AllocatePage]
    in DiskWriting 0 \<in> set (console (sm b)) \<and> cached b 0 = None \<and> dbFile (sm b) = [])"
    by code_simp
  show ?thesis using a b c d by blast
qed

end
